theory Spec2Isabelle
  imports Complex_Main "HOL-Library.Char_ord" "HOL-Library.List_Lexorder"
begin

text \<open>
  The repository is one Jupyter notebook, \<open>Dashboard.ipynb\<close>. Two of its functions carry
  logic: \<open>wrangle_data\<close>, which turns a list of dated records into a data frame with one
  row per day, and \<open>api_button_callback\<close>, which fetches fresh records and swaps the
  active table. Both are embedded here. pandas, ipywidgets and the API client are
  libraries; each operation the notebook calls is modelled, where it is introduced, by what
  it does to the values the notebook passes.
\<close>

section \<open>Exceptions, timestamps and floats\<close>

text \<open>
  The notebook raises no exception of its own; every failure is a Python or library
  exception that escapes: \<open>IndexError\<close> from \<open>dates[0]\<close>, \<open>KeyError\<close> from a dictionary
  or a \<open>.loc\<close> lookup, \<open>ValueError\<close> from \<open>pd.to_datetime\<close> and \<open>pd.date_range\<close>,
  \<open>OverflowError\<close> from \<open>float()\<close>, \<open>TraitError\<close> from assigning to a widget trait.
\<close>

datatype error = IndexError | KeyError | ValueError | OverflowError | TraitError

text \<open>
  What \<open>pd.to_datetime\<close> returns under the format \<open>%Y-%m-%d\<close>: the missing value
  \<open>NaT\<close>, or a midnight, which is represented by its proleptic Gregorian day number
  (Python's \<open>date.toordinal()\<close>: day 1 is 0001-01-01).
\<close>

datatype timestamp = NaT | Timestamp int

text \<open>
  Which strings \<open>pd.to_datetime(datestring, format="%Y-%m-%d")\<close> accepts is library
  behaviour and differs between pandas versions. The embedding therefore takes the parser
  as a parameter \<open>pd\<close>: a function from the string to the timestamp, or to \<open>None\<close> when
  the call raises (a \<open>ValueError\<close>, or a subclass of it). The statements below hold for
  every such parser unless they say otherwise.
\<close>

type_synonym parser = "string \<Rightarrow> timestamp option"

definition parse_date :: "parser \<Rightarrow> string \<Rightarrow> error + timestamp" where
  "parse_date pd datestring =
     (case pd datestring of None \<Rightarrow> Inl ValueError | Some t \<Rightarrow> Inr t)"

text \<open>
  A Python float: a finite value, an infinity or NaN. \<open>json.load\<close> yields all four, since
  it accepts the literals \<open>NaN\<close>, \<open>Infinity\<close> and \<open>-Infinity\<close>.
\<close>

datatype pyfloat = Finite real | PosInf | NegInf | NaN

section \<open>The calendar and a parser for the format\<close>

definition is_leap :: "int \<Rightarrow> bool" where
  "is_leap y \<longleftrightarrow> y mod 4 = 0 \<and> (y mod 100 \<noteq> 0 \<or> y mod 400 = 0)"

definition days_in_month :: "int \<Rightarrow> int \<Rightarrow> int" where
  "days_in_month y m =
     (if m = 2 then (if is_leap y then 29 else 28)
      else if m = 4 \<or> m = 6 \<or> m = 9 \<or> m = 11 then 30 else 31)"

definition days_before_year :: "int \<Rightarrow> int" where
  "days_before_year y = (y - 1) * 365 + (y - 1) div 4 - (y - 1) div 100 + (y - 1) div 400"

definition days_before_month :: "int \<Rightarrow> int \<Rightarrow> int" where
  "days_before_month y m =
     [0, 31, 59, 90, 120, 151, 181, 212, 243, 273, 304, 334] ! nat (m - 1)
       + (if 2 < m \<and> is_leap y then 1 else 0)"

definition ymd2ord :: "int \<Rightarrow> int \<Rightarrow> int \<Rightarrow> int" where
  "ymd2ord y m d = days_before_year y + days_before_month y m + d"

definition valid_ymd :: "int \<Rightarrow> int \<Rightarrow> int \<Rightarrow> bool" where
  "valid_ymd y m d \<longleftrightarrow> 1 \<le> m \<and> m \<le> 12 \<and> 1 \<le> d \<and> d \<le> days_in_month y m"

text \<open>
  With 64-bit nanoseconds since 1970 the midnights a timestamp can hold run from
  1677-09-22 to 2262-04-11.
\<close>

definition timestamp_min :: int where
  "timestamp_min = ymd2ord 1677 9 22"

definition timestamp_max :: int where
  "timestamp_max = ymd2ord 2262 4 11"

definition is_digit :: "char \<Rightarrow> bool" where
  "is_digit c \<longleftrightarrow> CHR ''0'' \<le> c \<and> c \<le> CHR ''9''"

definition digit_value :: "char \<Rightarrow> int" where
  "digit_value c = int (of_char c) - 48"

definition int_of_digits :: "string \<Rightarrow> int" where
  "int_of_digits ds = foldl (\<lambda>n c. 10 * n + digit_value c) 0 ds"

text \<open>
  The directive \<open>%d\<close> also reads a day that is padded with a space instead of a zero.
\<close>

definition unpad :: "string \<Rightarrow> string" where
  "unpad d = (case d of [] \<Rightarrow> d | c # cs \<Rightarrow> if c = CHR '' '' \<and> length cs = 1 then cs else d)"

text \<open>
  \<open>to_datetime\<close> is one parser, used to evaluate the sample inputs. It reads the three
  directives as Python's \<open>strptime\<close> does: \<open>%Y\<close> is a year of four digits, \<open>%m\<close> a month
  of one or two digits, \<open>%d\<close> a day of one or two digits or a space and a digit; the
  separators are hyphens, nothing may follow the day, and the day must exist in the
  calendar and lie in the range of a nanosecond timestamp. The empty string and the
  strings that spell NaT or NaN are read as \<open>NaT\<close>. Every other string raises.
\<close>

definition strptime_ymd :: "string \<Rightarrow> timestamp option" where
  "strptime_ymd s =
     (let y = takeWhile is_digit s; r = dropWhile is_digit s in
      case r of
        [] \<Rightarrow> None
      | sep1 # r1 \<Rightarrow>
          (let m = takeWhile is_digit r1; r2 = dropWhile is_digit r1 in
           case r2 of
             [] \<Rightarrow> None
           | sep2 # d \<Rightarrow>
               if sep1 = CHR ''-'' \<and> sep2 = CHR ''-'' \<and> length y = 4
                  \<and> (length m = 1 \<or> length m = 2)
                  \<and> (length d = 1 \<or> length d = 2) \<and> list_all is_digit (unpad d)
               then
                 (let yy = int_of_digits y; mm = int_of_digits m;
                      dd = int_of_digits (unpad d)
                  in if valid_ymd yy mm dd
                        \<and> timestamp_min \<le> ymd2ord yy mm dd \<and> ymd2ord yy mm dd \<le> timestamp_max
                     then Some (Timestamp (ymd2ord yy mm dd))
                     else None)
               else None))"

definition nat_strings :: "string list" where
  "nat_strings = [''NaT'', ''nat'', ''NAT'', ''nan'', ''NaN'', ''NAN'']"

definition to_datetime :: parser where
  "to_datetime s = (if s = [] \<or> s \<in> set nat_strings then Some NaT else strptime_ymd s)"

text \<open>
  A zero-padded date \<open>YYYY-MM-DD\<close> and the day it spells: ten characters, digits and
  hyphens only, read by the directives.
\<close>

definition zero_padded :: "string \<Rightarrow> bool" where
  "zero_padded s \<longleftrightarrow> length s = 10 \<and> list_all (\<lambda>c. is_digit c \<or> c = CHR ''-'') s"

definition iso_day :: "string \<Rightarrow> int option" where
  "iso_day s =
     (if zero_padded s then
        (case strptime_ymd s of Some (Timestamp d) \<Rightarrow> Some d | _ \<Rightarrow> None)
      else None)"

section \<open>Records and the data frame\<close>

text \<open>
  The four data columns, in the order of the list the source iterates over.
\<close>

datatype column = beds | cases | firstDose | secondDose

definition columns :: "column list" where
  "columns = [beds, cases, firstDose, secondDose]"

text \<open>
  What \<open>json.load\<close> and the API client give for a metric: \<open>None\<close>, an integer of any
  size, or a float.
\<close>

datatype jnumber = Null | JInt int | JFloat pyfloat

text \<open>
  An entry is a Python dictionary. Its \<open>'date'\<close> key holds a string, its four column
  keys hold a number or \<open>None\<close>; any key may be absent, and looking an absent key up
  raises \<open>KeyError\<close>.
\<close>

record entry =
  date :: "string option"
  col :: "column \<rightharpoonup> jnumber"

text \<open>
  The argument of \<open>wrangle_data\<close> is a dictionary too: \<open>'data'\<close> holds the list of
  entries, and \<open>other_keys\<close> counts the keys beside it (\<open>len\<close> of the dictionary is what
  the refresh callback tests).
\<close>

record rawdata =
  data :: "entry list option"
  other_keys :: nat

text \<open>
  A data frame with a date index and the four columns of floats; NaN is the missing value.
  The pandas operations the source calls are library code and are modelled by what they do
  to such a frame: \<open>pd.date_range(start, end, freq='D')\<close> is the run of days from
  \<open>start\<close> to \<open>end\<close> (empty when \<open>end\<close> is before \<open>start\<close>) and raises \<open>ValueError\<close>
  when either is \<open>NaT\<close>, \<open>pd.DataFrame(index, columns)\<close> is a frame of NaN, reading
  \<open>df.loc[d, c]\<close> raises \<open>KeyError\<close> for a label that is not in the index, \<open>pd.isna\<close>
  tests for NaN, and \<open>fillna\<close> replaces every NaN of the frame.
\<close>

record dataframe =
  index :: "timestamp list"
  cell :: "timestamp \<Rightarrow> column \<Rightarrow> pyfloat"

definition date_range :: "timestamp \<Rightarrow> timestamp \<Rightarrow> error + timestamp list" where
  "date_range startdate enddate =
     (case startdate of
        NaT \<Rightarrow> Inl ValueError
      | Timestamp a \<Rightarrow>
          (case enddate of
             NaT \<Rightarrow> Inl ValueError
           | Timestamp b \<Rightarrow> Inr (map Timestamp [a..b])))"

definition DataFrame :: "timestamp list \<Rightarrow> dataframe" where
  "DataFrame idx = \<lparr>index = idx, cell = (\<lambda>d c. NaN)\<rparr>"

definition loc_get :: "dataframe \<Rightarrow> timestamp \<Rightarrow> column \<Rightarrow> error + pyfloat" where
  "loc_get df d c = (if d \<in> set (index df) then Inr (cell df d c) else Inl KeyError)"

text \<open>
  Assigning through \<open>.loc\<close> to a label that is not in the index appends a row.
\<close>

definition loc_set :: "dataframe \<Rightarrow> timestamp \<Rightarrow> column \<Rightarrow> pyfloat \<Rightarrow> dataframe" where
  "loc_set df d c v =
     \<lparr>index = (if d \<in> set (index df) then index df else index df @ [d]),
      cell = (cell df)(d := (cell df d)(c := v))\<rparr>"

definition isna :: "pyfloat \<Rightarrow> bool" where
  "isna v \<longleftrightarrow> v = NaN"

definition fillna :: "pyfloat \<Rightarrow> dataframe \<Rightarrow> dataframe" where
  "fillna v df =
     \<lparr>index = index df,
      cell = (\<lambda>d c. if d \<in> set (index df) \<and> isna (cell df d c) then v else cell df d c)\<rparr>"

section \<open>The wrangler\<close>

text \<open>
  \<open>float()\<close> of a Python integer rounds to the nearest double, ties to even, and raises
  \<open>OverflowError\<close> when the result would not be finite. A double has 53 significant bits:
  an integer of \<open>bitlen\<close> bits is rounded at the bit \<open>bitlen - 53\<close>.
\<close>

function bitlen :: "int \<Rightarrow> nat" where
  "bitlen n = (if n \<le> 0 then 0 else Suc (bitlen (n div 2)))"
  by pat_completeness auto
termination
  by (relation "measure nat") auto

declare bitlen.simps [simp del]

definition round_to_double :: "int \<Rightarrow> int" where
  "round_to_double n =
     (let a = \<bar>n\<bar>; e = bitlen a - 53; q = a div 2 ^ e; r = a mod 2 ^ e;
          q' = (if 2 ^ e < 2 * r \<or> (2 * r = 2 ^ e \<and> odd q) then q + 1 else q)
      in sgn n * (q' * 2 ^ e))"

definition float_of_int :: "int \<Rightarrow> error + pyfloat" where
  "float_of_int n =
     (let m = round_to_double n in
      if 2 ^ 1024 \<le> \<bar>m\<bar> then Inl OverflowError else Inr (Finite (of_int m)))"

text \<open>
  The expression \<open>float(entry[column]) if entry[column]!=None else 0.0\<close>. A float,
  NaN included, differs from \<open>None\<close> and is passed on as it is.
\<close>

definition to_float :: "jnumber \<Rightarrow> error + pyfloat" where
  "to_float x =
     (case x of Null \<Rightarrow> Inr (Finite 0) | JInt n \<Rightarrow> float_of_int n | JFloat v \<Rightarrow> Inr v)"

text \<open>
  The list comprehension \<open>[dictionary['date'] for dictionary in datalist]\<close>. The list
  is then sorted as Python sorts strings, character by character; \<open>sort\<close> below is that
  order on \<open>string\<close>.
\<close>

fun dates_of :: "entry list \<Rightarrow> error + string list" where
  "dates_of [] = Inr []"
| "dates_of (e # es) =
     (case date e of
        None \<Rightarrow> Inl KeyError
      | Some s \<Rightarrow> (case dates_of es of Inl err \<Rightarrow> Inl err | Inr ss \<Rightarrow> Inr (s # ss)))"

text \<open>
  The inner loop over the columns for one entry: a slot is written only while it is still
  NaN, and \<open>entry[column]\<close> is read and converted only then.
\<close>

fun fill_columns :: "entry \<Rightarrow> timestamp \<Rightarrow> column list \<Rightarrow> dataframe \<Rightarrow> error + dataframe" where
  "fill_columns e d [] df = Inr df"
| "fill_columns e d (c # cs) df =
     (case loc_get df d c of
        Inl err \<Rightarrow> Inl err
      | Inr old \<Rightarrow>
          if isna old then
            (case col e c of
               None \<Rightarrow> Inl KeyError
             | Some x \<Rightarrow>
                 (case to_float x of
                    Inl err \<Rightarrow> Inl err
                  | Inr v \<Rightarrow> fill_columns e d cs (loc_set df d c v)))
          else fill_columns e d cs df)"

text \<open>\<open>parse_date(entry['date'])\<close>, the first statement of the outer loop's body.\<close>

definition parsed_date :: "parser \<Rightarrow> entry \<Rightarrow> error + timestamp" where
  "parsed_date pd e = (case date e of None \<Rightarrow> Inl KeyError | Some s \<Rightarrow> parse_date pd s)"

text \<open>The outer loop over the entries, in list order.\<close>

fun fill_entries :: "parser \<Rightarrow> entry list \<Rightarrow> dataframe \<Rightarrow> error + dataframe" where
  "fill_entries pd [] df = Inr df"
| "fill_entries pd (e # es) df =
     (case parsed_date pd e of
        Inl err \<Rightarrow> Inl err
      | Inr d \<Rightarrow>
          (case fill_columns e d columns df of
             Inl err \<Rightarrow> Inl err
           | Inr df' \<Rightarrow> fill_entries pd es df'))"

definition wrangle_data :: "parser \<Rightarrow> rawdata \<Rightarrow> error + dataframe" where
  "wrangle_data pd raw =
     (case data raw of
        None \<Rightarrow> Inl KeyError
      | Some datalist \<Rightarrow>
          (case dates_of datalist of
             Inl err \<Rightarrow> Inl err
           | Inr unsorted \<Rightarrow>
               (let dates = sort unsorted in
                if dates = [] then Inl IndexError
                else
                  (case parse_date pd (hd dates) of
                     Inl err \<Rightarrow> Inl err
                   | Inr startdate \<Rightarrow>
                       (case parse_date pd (last dates) of
                          Inl err \<Rightarrow> Inl err
                        | Inr enddate \<Rightarrow>
                            (case date_range startdate enddate of
                               Inl err \<Rightarrow> Inl err
                             | Inr idx \<Rightarrow>
                                 (case fill_entries pd datalist (DataFrame idx) of
                                    Inl err \<Rightarrow> Inl err
                                  | Inr df \<Rightarrow> Inr (fillna (Finite 0) df))))))))"

text \<open>
  The vocabulary of the statements below: the days of the entries whose date parses to a
  timestamp, the first entry of a list that carries a given date, the float an entry gives
  for a column (NaN where it gives none), and the first such float, among the entries of a
  date, that is not NaN.
\<close>

definition timestamps :: "parser \<Rightarrow> entry list \<Rightarrow> int list" where
  "timestamps pd es =
     List.map_filter
       (\<lambda>e. case parsed_date pd e of Inr (Timestamp d) \<Rightarrow> Some d | _ \<Rightarrow> None) es"

definition earliest :: "parser \<Rightarrow> entry list \<Rightarrow> int" where
  "earliest pd es = Min (set (timestamps pd es))"

definition latest :: "parser \<Rightarrow> entry list \<Rightarrow> int" where
  "latest pd es = Max (set (timestamps pd es))"

definition first_entry :: "parser \<Rightarrow> timestamp \<Rightarrow> entry list \<Rightarrow> entry option" where
  "first_entry pd d es = find (\<lambda>e. parsed_date pd e = Inr d) es"

definition float_value :: "entry \<Rightarrow> column \<Rightarrow> pyfloat" where
  "float_value e c =
     (case col e c of
        None \<Rightarrow> NaN
      | Some x \<Rightarrow> (case to_float x of Inl err \<Rightarrow> NaN | Inr v \<Rightarrow> v))"

fun first_value :: "parser \<Rightarrow> timestamp \<Rightarrow> column \<Rightarrow> entry list \<Rightarrow> pyfloat" where
  "first_value pd d c [] = NaN"
| "first_value pd d c (e # es) =
     (if parsed_date pd e = Inr d \<and> \<not> isna (float_value e c) then float_value e c
      else first_value pd d c es)"

section \<open>The refresh callback\<close>

text \<open>
  The notebook's global state: the active table \<open>df\<close>, the value of the column selector
  \<open>bedcols\<close>, and what the output widget has been asked to draw, oldest first. The sync
  button is passed to the callback and is a value of its own, with the attributes the
  notebook sets.
\<close>

record button =
  icon :: string
  description :: string
  disabled :: bool
  button_style :: string
  tooltip :: string

datatype rendering = Plot "column list" dataframe | Hint

record notebook =
  df :: dataframe
  bedcols_value :: "column list"
  drawn :: "rendering list"

definition apibutton :: button where
  "apibutton =
     \<lparr>icon = ''cloud-download'', description = ''Sync data'', disabled = False,
      button_style = [], tooltip = ''Sync latest data from PHE''\<rparr>"

definition options :: "column list" where
  "options = [beds, cases, firstDose, secondDose]"

text \<open>\<open>len(apidata)\<close>: the number of keys of the dictionary.\<close>

definition len :: "rawdata \<Rightarrow> nat" where
  "len raw = (case data raw of None \<Rightarrow> 0 | Some datalist \<Rightarrow> 1) + other_keys raw"

text \<open>
  \<open>beds_graph\<close> plots the selected columns of the global table, or prints a hint when
  nothing is selected.
\<close>

definition beds_graph :: "column list \<Rightarrow> notebook \<Rightarrow> notebook" where
  "beds_graph graphcolumns nb =
     (let ncols = length graphcolumns in
      if ncols > 0 then nb\<lparr>drawn := drawn nb @ [Plot graphcolumns (df nb)]\<rparr>
      else nb\<lparr>drawn := drawn nb @ [Hint]\<rparr>)"

text \<open>
  \<open>interactive_output\<close> observes the selector: assigning a value that differs from the
  present one calls \<open>beds_graph\<close> with the new value; assigning the same value does nothing.
\<close>

definition set_bedcols_value :: "column list \<Rightarrow> notebook \<Rightarrow> notebook" where
  "set_bedcols_value v nb =
     (if v = bedcols_value nb then nb else beds_graph v (nb\<lparr>bedcols_value := v\<rparr>))"

definition refresh_graph :: "notebook \<Rightarrow> notebook" where
  "refresh_graph nb =
     (let current = bedcols_value nb;
          other = (if current = take 2 options then take 3 options else take 2 options)
      in set_bedcols_value current (set_bedcols_value other nb))"

text \<open>
  The callback. \<open>apidata\<close> is what \<open>access_api()\<close> returned. An exception leaves the
  assignments made before it in place, so the result is the exception, if any, together
  with the button and the notebook as they are when the callback ends. In the branch for
  no data the third assignment is \<open>button.style="warning"\<close>: \<open>style\<close> is a trait that
  holds a \<open>ButtonStyle\<close> object, a string is refused with \<open>TraitError\<close>, and the two
  assignments after it, to \<open>tooltip\<close> and \<open>disabled\<close>, are not reached.
\<close>

definition api_button_callback ::
  "parser \<Rightarrow> rawdata \<Rightarrow> button \<Rightarrow> notebook \<Rightarrow> error option \<times> button \<times> notebook" where
  "api_button_callback pd apidata b nb =
     (if len apidata > 0 then
        (let b' = b\<lparr>icon := ''check-circle'', description := ''Synced'', disabled := True\<rparr> in
         case wrangle_data pd apidata of
           Inl err \<Rightarrow> (Some err, b', nb)
         | Inr table \<Rightarrow> (None, b', refresh_graph (nb\<lparr>df := table\<rparr>)))
      else
        (Some TraitError,
         b\<lparr>icon := ''exclamation-circle'', description := ''Error''\<rparr>,
         nb))"

section \<open>The wrangler's objects in a store\<close>

text \<open>
  \<open>wrangle_data\<close> works by mutation: it sorts the list \<open>dates\<close> in place, assigns to cells
  of \<open>df\<close> through \<open>.loc\<close> and fills \<open>df\<close> in place. To say what it leaves alone, the
  objects are put in a store: the dictionaries that \<open>json.load\<close> or the API client made,
  the lists of strings and the data frames, each kind at its own addresses. Lists and
  frames are allocated at the next free address; the notebook's active table is one of the
  frames allocated before the call. \<open>run_wrangle_data\<close> is \<open>wrangle_data\<close> statement by
  statement on that store: it takes the address of its argument and returns the address of
  the frame it built, or the exception, together with the store as the call leaves it.
\<close>

type_synonym addr = nat

record store =
  dicts :: "addr \<Rightarrow> rawdata"
  date_lists :: "addr \<Rightarrow> string list"
  frames :: "addr \<Rightarrow> dataframe"
  next_list :: addr
  next_frame :: addr

definition new_list :: "string list \<Rightarrow> store \<Rightarrow> addr \<times> store" where
  "new_list xs s =
     (next_list s,
      s\<lparr>date_lists := (date_lists s)(next_list s := xs), next_list := Suc (next_list s)\<rparr>)"

definition new_frame :: "dataframe \<Rightarrow> store \<Rightarrow> addr \<times> store" where
  "new_frame fr s =
     (next_frame s,
      s\<lparr>frames := (frames s)(next_frame s := fr), next_frame := Suc (next_frame s)\<rparr>)"

definition list_sort :: "addr \<Rightarrow> store \<Rightarrow> store" where
  "list_sort a s = s\<lparr>date_lists := (date_lists s)(a := sort (date_lists s a))\<rparr>"

definition frame_loc_set :: "addr \<Rightarrow> timestamp \<Rightarrow> column \<Rightarrow> pyfloat \<Rightarrow> store \<Rightarrow> store" where
  "frame_loc_set a d c v s = s\<lparr>frames := (frames s)(a := loc_set (frames s a) d c v)\<rparr>"

definition frame_fillna :: "addr \<Rightarrow> pyfloat \<Rightarrow> store \<Rightarrow> store" where
  "frame_fillna a v s = s\<lparr>frames := (frames s)(a := fillna v (frames s a))\<rparr>"

fun run_fill_columns ::
  "entry \<Rightarrow> timestamp \<Rightarrow> column list \<Rightarrow> addr \<Rightarrow> store \<Rightarrow> error option \<times> store" where
  "run_fill_columns e d [] a s = (None, s)"
| "run_fill_columns e d (c # cs) a s =
     (case loc_get (frames s a) d c of
        Inl err \<Rightarrow> (Some err, s)
      | Inr old \<Rightarrow>
          if isna old then
            (case col e c of
               None \<Rightarrow> (Some KeyError, s)
             | Some x \<Rightarrow>
                 (case to_float x of
                    Inl err \<Rightarrow> (Some err, s)
                  | Inr v \<Rightarrow> run_fill_columns e d cs a (frame_loc_set a d c v s)))
          else run_fill_columns e d cs a s)"

fun run_fill_entries ::
  "parser \<Rightarrow> entry list \<Rightarrow> addr \<Rightarrow> store \<Rightarrow> error option \<times> store" where
  "run_fill_entries pd [] a s = (None, s)"
| "run_fill_entries pd (e # es) a s =
     (case parsed_date pd e of
        Inl err \<Rightarrow> (Some err, s)
      | Inr d \<Rightarrow>
          (case run_fill_columns e d columns a s of
             (Some err, s') \<Rightarrow> (Some err, s')
           | (None, s') \<Rightarrow> run_fill_entries pd es a s'))"

definition run_wrangle_data :: "parser \<Rightarrow> addr \<Rightarrow> store \<Rightarrow> (error + addr) \<times> store" where
  "run_wrangle_data pd rawdata s =
     (case data (dicts s rawdata) of
        None \<Rightarrow> (Inl KeyError, s)
      | Some datalist \<Rightarrow>
          (case dates_of datalist of
             Inl err \<Rightarrow> (Inl err, s)
           | Inr unsorted \<Rightarrow>
               (let (dates, s1) = new_list unsorted s;
                    s2 = list_sort dates s1
                in if date_lists s2 dates = [] then (Inl IndexError, s2)
                   else
                     (case parse_date pd (hd (date_lists s2 dates)) of
                        Inl err \<Rightarrow> (Inl err, s2)
                      | Inr startdate \<Rightarrow>
                          (case parse_date pd (last (date_lists s2 dates)) of
                             Inl err \<Rightarrow> (Inl err, s2)
                           | Inr enddate \<Rightarrow>
                               (case date_range startdate enddate of
                                  Inl err \<Rightarrow> (Inl err, s2)
                                | Inr idx \<Rightarrow>
                                    (let (frame, s3) = new_frame (DataFrame idx) s2
                                     in case run_fill_entries pd datalist frame s3 of
                                          (Some err, s4) \<Rightarrow> (Inl err, s4)
                                        | (None, s4) \<Rightarrow>
                                            (Inr frame, frame_fillna frame (Finite 0) s4))))))))"

text \<open>The exception a result stands for, if any.\<close>

definition raised :: "error + 'a \<Rightarrow> error option" where
  "raised r = (case r of Inl err \<Rightarrow> Some err | Inr x \<Rightarrow> None)"

text \<open>
  \<open>wrangle_data(rawdata).loc[d, c]\<close>: reading one cell of what a call returns, or the
  exception of the call.
\<close>

definition result_loc :: "error + dataframe \<Rightarrow> timestamp \<Rightarrow> column \<Rightarrow> error + pyfloat" where
  "result_loc r d c = (case r of Inl err \<Rightarrow> Inl err | Inr t \<Rightarrow> loc_get t d c)"

section \<open>Sample inputs\<close>

text \<open>
  Concrete inputs on which the statements below are evaluated. \<open>make_entry\<close> builds an
  entry with all five keys. \<open>example_input\<close> is the example of the specification;
  \<open>missing_key_input\<close> is an entry without \<open>'beds'\<close>; \<open>overflow_input\<close> is an entry whose
  \<open>beds\<close> is the integer \<open>10 ** 400\<close>; \<open>duplicate_input\<close> and \<open>swapped_input\<close> hold the
  same two entries of one date in the two orders; \<open>nan_first_input\<close> holds two entries of
  one date of which the first has NaN for \<open>cases\<close>; \<open>bad_date_input\<close> has a date that does
  not parse between two that do; \<open>bad_date_missing_key_input\<close> has, before it, an
  entry without \<open>'beds'\<close>, and \<open>bad_date_overflow_input\<close> an entry whose \<open>beds\<close> is
  \<open>10 ** 400\<close>; \<open>unpadded_input\<close> has a month written without its leading
  zero.
\<close>

definition make_entry :: "string \<Rightarrow> jnumber \<Rightarrow> jnumber \<Rightarrow> jnumber \<Rightarrow> jnumber \<Rightarrow> entry" where
  "make_entry s b c f g =
     \<lparr>date = Some s, col = [beds \<mapsto> b, cases \<mapsto> c, firstDose \<mapsto> f, secondDose \<mapsto> g]\<rparr>"

definition example_input :: rawdata where
  "example_input =
     \<lparr>data = Some [make_entry ''2021-01-01'' (JInt 10) (JInt 100) Null (JInt 0),
                   make_entry ''2021-01-03'' (JInt 12) (JInt 90) (JInt 500) (JInt 0)],
      other_keys = 0\<rparr>"

definition missing_key_input :: rawdata where
  "missing_key_input =
     \<lparr>data = Some [\<lparr>date = Some ''2021-01-01'',
                    col = [cases \<mapsto> JInt 100, firstDose \<mapsto> Null, secondDose \<mapsto> JInt 0]\<rparr>],
      other_keys = 0\<rparr>"

definition overflow_input :: rawdata where
  "overflow_input =
     \<lparr>data = Some [make_entry ''2021-01-01'' (JInt (10 ^ 400)) (JInt 100) Null (JInt 0)],
      other_keys = 0\<rparr>"

definition duplicate_input :: rawdata where
  "duplicate_input =
     \<lparr>data = Some [make_entry ''2021-01-01'' Null (JInt 1) (JInt 2) (JInt 3),
                   make_entry ''2021-01-01'' (JInt 7) (JInt 8) (JInt 9) (JInt 10)],
      other_keys = 0\<rparr>"

definition swapped_input :: rawdata where
  "swapped_input =
     \<lparr>data = Some [make_entry ''2021-01-01'' (JInt 7) (JInt 8) (JInt 9) (JInt 10),
                   make_entry ''2021-01-01'' Null (JInt 1) (JInt 2) (JInt 3)],
      other_keys = 0\<rparr>"

definition nan_first_input :: rawdata where
  "nan_first_input =
     \<lparr>data = Some [make_entry ''2021-01-01'' (JInt 5) (JFloat NaN) (JInt 2) (JInt 3),
                   make_entry ''2021-01-01'' (JInt 7) (JInt 8) (JInt 9) (JInt 10)],
      other_keys = 0\<rparr>"

definition empty_input :: rawdata where
  "empty_input = \<lparr>data = Some [], other_keys = 0\<rparr>"

definition bad_date_input :: rawdata where
  "bad_date_input =
     \<lparr>data = Some [make_entry ''2021-01-01'' (JInt 1) (JInt 2) (JInt 3) (JInt 4),
                   make_entry ''2021-01-02x'' (JInt 5) (JInt 6) (JInt 7) (JInt 8),
                   make_entry ''2021-01-03'' (JInt 9) (JInt 10) (JInt 11) (JInt 12)],
      other_keys = 0\<rparr>"

definition bad_date_missing_key_input :: rawdata where
  "bad_date_missing_key_input =
     \<lparr>data = Some [\<lparr>date = Some ''2021-01-01'',
                    col = [cases \<mapsto> JInt 2, firstDose \<mapsto> JInt 3, secondDose \<mapsto> JInt 4]\<rparr>,
                   make_entry ''2021-01-02x'' (JInt 5) (JInt 6) (JInt 7) (JInt 8),
                   make_entry ''2021-01-03'' (JInt 9) (JInt 10) (JInt 11) (JInt 12)],
      other_keys = 0\<rparr>"

definition bad_date_overflow_input :: rawdata where
  "bad_date_overflow_input =
     \<lparr>data = Some [make_entry ''2021-01-01'' (JInt (10 ^ 400)) (JInt 2) (JInt 3) (JInt 4),
                   make_entry ''2021-01-02x'' (JInt 5) (JInt 6) (JInt 7) (JInt 8),
                   make_entry ''2021-01-03'' (JInt 9) (JInt 10) (JInt 11) (JInt 12)],
      other_keys = 0\<rparr>"

definition notebook0 :: notebook where
  "notebook0 = \<lparr>df = DataFrame [], bedcols_value = [beds, cases, firstDose], drawn = []\<rparr>"

definition unpadded_input :: rawdata where
  "unpadded_input =
     \<lparr>data = Some [make_entry ''2021-10-01'' (JInt 1) (JInt 2) (JInt 3) (JInt 4),
                   make_entry ''2021-9-01'' (JInt 5) (JInt 6) (JInt 7) (JInt 8)],
      other_keys = 0\<rparr>"

text \<open>
  A store in which address 0 holds \<open>duplicate_input\<close> and frame 0 is a table made
  earlier.
\<close>

definition store0 :: store where
  "store0 =
     \<lparr>dicts = (\<lambda>a. empty_input)(0 := duplicate_input),
      date_lists = (\<lambda>a. []),
      frames = (\<lambda>a. DataFrame [])(0 := DataFrame [Timestamp 1, Timestamp 2, Timestamp 3]),
      next_list = 0, next_frame = 1\<rparr>"

section \<open>Calendar arithmetic\<close>

lemma div_step:
  fixes y n :: int
  assumes "0 < n"
  shows "y div n = (y - 1) div n + (if y mod n = 0 then 1 else 0)"
proof -
  define q where "q = (y - 1) div n"
  define r where "r = (y - 1) mod n"
  have r: "0 \<le> r" "r < n" using assms by (simp_all add: r_def)
  have y: "y = n * q + (r + 1)" by (simp add: q_def r_def)
  show ?thesis
  proof (cases "r + 1 = n")
    case True
    then have y': "y = n * (q + 1) + 0" using y by (simp add: algebra_simps)
    have "y div n = q + 1" using assms by (intro int_div_pos_eq [OF y']) simp_all
    moreover have "y mod n = 0" using assms by (intro int_mod_pos_eq [OF y']) simp_all
    ultimately show ?thesis by (simp add: q_def)
  next
    case False
    then have lt: "r + 1 < n" using r by simp
    have "y div n = q" using r lt by (intro int_div_pos_eq [OF y]) simp_all
    moreover have "y mod n = r + 1" using r lt by (intro int_mod_pos_eq [OF y]) simp_all
    ultimately show ?thesis using r by (simp add: q_def)
  qed
qed

lemma mod_chain:
  fixes y :: int
  shows "y mod 400 = 0 \<Longrightarrow> y mod 100 = 0" and "y mod 100 = 0 \<Longrightarrow> y mod 4 = 0"
proof -
  assume "y mod 400 = 0"
  then obtain k where "y = 400 * k" by (auto simp: mod_eq_0_iff_dvd)
  then have "y = 100 * (4 * k)" by simp
  then show "y mod 100 = 0" by (simp only: mod_mult_self1_is_0)
next
  assume "y mod 100 = 0"
  then obtain k where "y = 100 * k" by (auto simp: mod_eq_0_iff_dvd)
  then have "y = 4 * (25 * k)" by simp
  then show "y mod 4 = 0" by (simp only: mod_mult_self1_is_0)
qed

lemma leap_indicator:
  fixes i4 i100 i400 :: int
  assumes "i4 = (if b4 then 1 else 0)" "i100 = (if b100 then 1 else 0)"
    "i400 = (if b400 then 1 else 0)" "b400 \<Longrightarrow> b100" "b100 \<Longrightarrow> b4"
  shows "365 + i4 - i100 + i400 = (if b4 \<and> (\<not> b100 \<or> b400) then 366 else 365)"
  using assms by (cases b4; cases b100; cases b400) simp_all

lemma days_before_year_step:
  "days_before_year (y + 1) = days_before_year y + (if is_leap y then 366 else 365)"
proof -
  define i4 :: int where "i4 = (if y mod 4 = 0 then 1 else 0)"
  define i100 :: int where "i100 = (if y mod 100 = 0 then 1 else 0)"
  define i400 :: int where "i400 = (if y mod 400 = 0 then 1 else 0)"
  define p4 where "p4 = (y - 1) div 4"
  define p100 where "p100 = (y - 1) div 100"
  define p400 where "p400 = (y - 1) div 400"
  have a: "y div 4 = p4 + i4" unfolding p4_def i4_def by (rule div_step) simp
  have b: "y div 100 = p100 + i100" unfolding p100_def i100_def by (rule div_step) simp
  have c: "y div 400 = p400 + i400" unfolding p400_def i400_def by (rule div_step) simp
  have "days_before_year (y + 1) = y * 365 + y div 4 - y div 100 + y div 400"
    by (simp add: days_before_year_def)
  also have "\<dots> = y * 365 + (p4 + i4) - (p100 + i100) + (p400 + i400)"
    by (simp only: a b c)
  also have "\<dots> = ((y - 1) * 365 + p4 - p100 + p400) + (365 + i4 - i100 + i400)"
    by (simp add: algebra_simps)
  also have "(y - 1) * 365 + p4 - p100 + p400 = days_before_year y"
    by (simp only: days_before_year_def p4_def p100_def p400_def)
  also have "365 + i4 - i100 + i400 = (if is_leap y then 366 else 365)"
    unfolding is_leap_def
    by (rule leap_indicator [OF i4_def i100_def i400_def]) (rule mod_chain; assumption)+
  finally show ?thesis .
qed

lemma days_before_year_mono_aux:
  "0 \<le> k \<Longrightarrow> days_before_year y \<le> days_before_year (y + k)"
proof (induction k rule: int_ge_induct)
  case base
  then show ?case by simp
next
  case (step i)
  have "days_before_year (y + i) \<le> days_before_year (y + i + 1)"
    by (simp only: days_before_year_step split: if_splits) simp
  then show ?case using step by (simp add: add.assoc)
qed

lemma days_before_year_mono:
  "y \<le> y' \<Longrightarrow> days_before_year y \<le> days_before_year y'"
  using days_before_year_mono_aux [of "y' - y" y] by simp

lemma month_cases:
  "1 \<le> m \<Longrightarrow> m \<le> 12 \<Longrightarrow>
   m = 1 \<or> m = 2 \<or> m = 3 \<or> m = 4 \<or> m = 5 \<or> m = 6 \<or> m = 7 \<or> m = 8 \<or> m = 9 \<or> m = 10 \<or> m = 11 \<or> m = (12::int)"
  by arith

lemma days_before_month_nonneg:
  "1 \<le> m \<Longrightarrow> m \<le> 12 \<Longrightarrow> 0 \<le> days_before_month y m"
  using month_cases [of m] by (auto simp: days_before_month_def)

lemma days_before_month_end:
  "1 \<le> m \<Longrightarrow> m \<le> 12 \<Longrightarrow>
   days_before_month y m + days_in_month y m \<le> (if is_leap y then 366 else 365)"
  using month_cases [of m] by (auto simp: days_before_month_def days_in_month_def)

lemma days_before_month_next:
  "1 \<le> m \<Longrightarrow> m < 12 \<Longrightarrow>
   days_before_month y (m + 1) = days_before_month y m + days_in_month y m"
  using month_cases [of m] by (auto simp: days_before_month_def days_in_month_def)

lemma days_in_month_pos: "0 < days_in_month y m"
  by (simp add: days_in_month_def)

lemma days_before_month_mono_aux:
  "0 \<le> k \<Longrightarrow> 1 \<le> m \<Longrightarrow> m + k \<le> 12 \<Longrightarrow> days_before_month y m \<le> days_before_month y (m + k)"
proof (induction k rule: int_ge_induct)
  case base
  then show ?case by simp
next
  case (step i)
  have "days_before_month y (m + (i + 1)) = days_before_month y (m + i + 1)"
    by (simp add: add.assoc)
  also have "\<dots> = days_before_month y (m + i) + days_in_month y (m + i)"
    using step by (intro days_before_month_next) auto
  finally show ?case using step days_in_month_pos [of y "m + i"] by simp
qed

lemma days_before_month_less:
  assumes "1 \<le> m" "m < m'" "m' \<le> 12"
  shows "days_before_month y m + days_in_month y m \<le> days_before_month y m'"
proof -
  have "days_before_month y (m + 1) \<le> days_before_month y ((m + 1) + (m' - (m + 1)))"
    using assms by (intro days_before_month_mono_aux) auto
  then show ?thesis using days_before_month_next [of m y] assms by simp
qed

lemma ymd2ord_mono:
  assumes "valid_ymd y m d" "valid_ymd y' m' d'"
    and "y < y' \<or> y = y' \<and> (m < m' \<or> m = m' \<and> d \<le> d')"
  shows "ymd2ord y m d \<le> ymd2ord y' m' d'"
proof -
  consider (year) "y < y'" | (month) "y = y'" "m < m'" | (day) "y = y'" "m = m'" "d \<le> d'"
    using assms(3) by auto
  then show ?thesis
  proof cases
    case year
    have "ymd2ord y m d \<le> days_before_year y + (if is_leap y then 366 else 365)"
      using assms(1) days_before_month_end [of m y] by (simp add: ymd2ord_def valid_ymd_def)
    also have "\<dots> = days_before_year (y + 1)" by (simp add: days_before_year_step)
    also have "\<dots> \<le> days_before_year y'" using year by (intro days_before_year_mono) simp
    also have "\<dots> \<le> ymd2ord y' m' d'"
      using assms(2) days_before_month_nonneg [of m' y'] by (simp add: ymd2ord_def valid_ymd_def)
    finally show ?thesis .
  next
    case month
    then show ?thesis
      using assms(1,2) days_before_month_less [of m m' y]
      by (simp add: ymd2ord_def valid_ymd_def)
  next
    case day
    then show ?thesis by (simp add: ymd2ord_def)
  qed
qed

section \<open>Digit strings and their order\<close>

lemma int_of_digits_foldl:
  "foldl (\<lambda>n c. 10 * n + digit_value c) a ds = a * 10 ^ length ds + int_of_digits ds"
proof (induction ds arbitrary: a)
  case Nil
  then show ?case by (simp add: int_of_digits_def)
next
  case (Cons c cs)
  have "foldl (\<lambda>n c. 10 * n + digit_value c) a (c # cs)
        = (10 * a + digit_value c) * 10 ^ length cs + int_of_digits cs"
    by (simp add: Cons.IH)
  moreover have "int_of_digits (c # cs) = digit_value c * 10 ^ length cs + int_of_digits cs"
    by (simp add: int_of_digits_def Cons.IH [of "digit_value c"])
  ultimately show ?case by (simp add: algebra_simps)
qed

lemma int_of_digits_Cons:
  "int_of_digits (c # cs) = digit_value c * 10 ^ length cs + int_of_digits cs"
  using int_of_digits_foldl [of "digit_value c" cs] by (simp add: int_of_digits_def)

lemma digit_value_range: "is_digit c \<Longrightarrow> 0 \<le> digit_value c \<and> digit_value c \<le> 9"
  by (auto simp: is_digit_def digit_value_def less_eq_char_def)

lemma digit_value_less: "c < c' \<Longrightarrow> digit_value c < digit_value c'"
  by (simp add: digit_value_def less_char_def)

lemma int_of_digits_range:
  "list_all is_digit ds \<Longrightarrow> 0 \<le> int_of_digits ds \<and> int_of_digits ds < 10 ^ length ds"
proof (induction ds)
  case Nil
  then show ?case by (simp add: int_of_digits_def)
next
  case (Cons c cs)
  then have d: "0 \<le> digit_value c" "digit_value c \<le> 9"
    using digit_value_range [of c] by auto
  define p :: int where "p = 10 ^ length cs"
  have r: "0 \<le> int_of_digits cs" "int_of_digits cs < p"
    using Cons by (auto simp: p_def)
  have eq: "int_of_digits (c # cs) = digit_value c * p + int_of_digits cs"
    "10 ^ length (c # cs) = 10 * p"
    by (simp_all add: int_of_digits_Cons p_def)
  have "digit_value c * p \<le> 9 * p" "0 \<le> digit_value c * p"
    using d r by (auto intro: mult_right_mono)
  then show ?case unfolding eq using r by linarith
qed

lemma int_of_digits_less:
  "length a = length b \<Longrightarrow> list_all is_digit a \<Longrightarrow> list_all is_digit b \<Longrightarrow> a < b \<Longrightarrow>
   int_of_digits a < int_of_digits b"
proof (induction a b rule: list_induct2)
  case Nil
  then show ?case by simp
next
  case (Cons x xs y ys)
  from Cons.prems(3) consider "x < y" | "x = y" "xs < ys" by auto
  then show ?case
  proof cases
    case 1
    define p :: int where "p = 10 ^ length xs"
    have eq: "int_of_digits (x # xs) = digit_value x * p + int_of_digits xs"
      "int_of_digits (y # ys) = digit_value y * p + int_of_digits ys"
      using Cons.hyps by (simp_all add: int_of_digits_Cons p_def)
    have r: "int_of_digits xs < p" "0 \<le> int_of_digits ys"
      using Cons.prems int_of_digits_range [of xs] int_of_digits_range [of ys]
      by (auto simp: p_def)
    have "digit_value x + 1 \<le> digit_value y" using digit_value_less [OF 1] by simp
    then have "(digit_value x + 1) * p \<le> digit_value y * p"
      using r by (intro mult_right_mono) (auto simp: p_def)
    then have "digit_value x * p + p \<le> digit_value y * p" by (simp add: algebra_simps)
    then show ?thesis unfolding eq using r by linarith
  next
    case 2
    then show ?thesis using Cons by (simp add: int_of_digits_Cons)
  qed
qed

lemma append_le_append:
  "length a = length b \<Longrightarrow> a @ u \<le> b @ v \<longleftrightarrow> a < b \<or> a = b \<and> u \<le> v"
  by (induction a b rule: list_induct2) auto

text \<open>What the day of a zero-padded date says about the string.\<close>

lemma unpad_digits: "list_all (\<lambda>c. is_digit c \<or> c = CHR ''-'') d \<Longrightarrow> unpad d = d"
  by (cases d) (auto simp: unpad_def is_digit_def)

lemma iso_day_Some:
  assumes "iso_day s = Some t"
  obtains y m d where "s = y @ CHR ''-'' # m @ CHR ''-'' # d"
    "length y = 4" "length m = 2" "length d = 2"
    "list_all is_digit y" "list_all is_digit m" "list_all is_digit d"
    "valid_ymd (int_of_digits y) (int_of_digits m) (int_of_digits d)"
    "t = ymd2ord (int_of_digits y) (int_of_digits m) (int_of_digits d)"
proof -
  from assms have zp: "zero_padded s" and p: "strptime_ymd s = Some (Timestamp t)"
    by (auto simp: iso_day_def split: if_splits option.splits timestamp.splits)
  define y where "y = takeWhile is_digit s"
  define r where "r = dropWhile is_digit s"
  from p obtain r1 where r: "r = CHR ''-'' # r1"
    by (auto simp: strptime_ymd_def Let_def r_def split: list.splits if_splits)
  define m where "m = takeWhile is_digit r1"
  define r2 where "r2 = dropWhile is_digit r1"
  from p r obtain d where r2: "r2 = CHR ''-'' # d"
    by (auto simp: strptime_ymd_def Let_def r_def r2_def split: list.splits if_splits)
  have s: "s = y @ CHR ''-'' # m @ CHR ''-'' # d"
  proof -
    have "s = y @ r" by (simp add: y_def r_def)
    moreover have "r1 = m @ r2" by (simp add: m_def r2_def)
    ultimately show ?thesis using r r2 by simp
  qed
  have dy: "list_all is_digit y" and dm: "list_all is_digit m"
    by (auto simp: y_def m_def list_all_iff dest: set_takeWhileD)
  have "list_all (\<lambda>c. is_digit c \<or> c = CHR ''-'') d"
    using zp s by (simp add: zero_padded_def)
  then have u: "unpad d = d" by (rule unpad_digits)
  from p have rest: "length y = 4" "length m = 1 \<or> length m = 2"
    "length d = 1 \<or> length d = 2" "list_all is_digit d"
    "valid_ymd (int_of_digits y) (int_of_digits m) (int_of_digits d)"
    "t = ymd2ord (int_of_digits y) (int_of_digits m) (int_of_digits d)"
    using r r2 u unfolding strptime_ymd_def Let_def r_def [symmetric] y_def [symmetric]
    by (simp_all add: m_def [symmetric] r2_def [symmetric] valid_ymd_def split: if_splits)
  have "length s = 10" using zp by (simp add: zero_padded_def)
  then have len: "length m = 2" "length d = 2" using s rest(1,2,3) by auto
  show ?thesis using that [OF s rest(1) len dy dm rest(4,5,6)] .
qed

text \<open>
  On zero-padded dates the order of the strings is the order of the days, so the first and
  the last string of the sorted list are the earliest and the latest day.
\<close>

lemma iso_day_mono:
  assumes "iso_day s = Some t" "iso_day s' = Some t'" "s \<le> s'"
  shows "t \<le> t'"
proof -
  from assms(1) obtain y m d where s: "s = y @ CHR ''-'' # m @ CHR ''-'' # d"
    "length y = 4" "length m = 2" "length d = 2"
    "list_all is_digit y" "list_all is_digit m" "list_all is_digit d"
    "valid_ymd (int_of_digits y) (int_of_digits m) (int_of_digits d)"
    "t = ymd2ord (int_of_digits y) (int_of_digits m) (int_of_digits d)"
    by (rule iso_day_Some)
  from assms(2) obtain y' m' d' where s': "s' = y' @ CHR ''-'' # m' @ CHR ''-'' # d'"
    "length y' = 4" "length m' = 2" "length d' = 2"
    "list_all is_digit y'" "list_all is_digit m'" "list_all is_digit d'"
    "valid_ymd (int_of_digits y') (int_of_digits m') (int_of_digits d')"
    "t' = ymd2ord (int_of_digits y') (int_of_digits m') (int_of_digits d')"
    by (rule iso_day_Some)
  have "y @ CHR ''-'' # m @ CHR ''-'' # d \<le> y' @ CHR ''-'' # m' @ CHR ''-'' # d'"
    using assms(3) s(1) s'(1) by simp
  then have "y < y' \<or> y = y' \<and> (m < m' \<or> m = m' \<and> (d < d' \<or> d = d'))"
    using s(2,3,4) s'(2,3,4) by (auto simp: append_le_append)
  then have "int_of_digits y < int_of_digits y'
      \<or> int_of_digits y = int_of_digits y'
        \<and> (int_of_digits m < int_of_digits m'
           \<or> int_of_digits m = int_of_digits m' \<and> int_of_digits d \<le> int_of_digits d')"
    using int_of_digits_less [of y y'] int_of_digits_less [of m m'] int_of_digits_less [of d d']
      s(2-7) s'(2-7) by fastforce
  then show ?thesis using ymd2ord_mono [OF s(8) s'(8)] s(9) s'(9) by simp
qed

section \<open>Converting an integer to a float\<close>

lemma bitlen_le: "n < 2 ^ k \<Longrightarrow> bitlen n \<le> k"
proof (induction k arbitrary: n)
  case 0
  then show ?case by (simp add: bitlen.simps [of n])
next
  case (Suc k)
  show ?case
  proof (cases "n \<le> 0")
    case True
    then show ?thesis by (simp add: bitlen.simps [of n])
  next
    case False
    have "n div 2 < 2 ^ k" using Suc.prems by simp
    then have "bitlen (n div 2) \<le> k" by (rule Suc.IH)
    then show ?thesis using False by (simp add: bitlen.simps [of n])
  qed
qed

text \<open>An integer of at most 53 bits is converted exactly.\<close>

lemma round_to_double_exact: "\<bar>n\<bar> < 2 ^ 53 \<Longrightarrow> round_to_double n = n"
proof -
  assume "\<bar>n\<bar> < 2 ^ 53"
  then have "bitlen \<bar>n\<bar> \<le> 53" by (rule bitlen_le)
  then have "bitlen \<bar>n\<bar> - 53 = 0" by simp
  then show ?thesis by (simp add: round_to_double_def Let_def mult_sgn_abs)
qed

lemma float_of_int_exact: "\<bar>n\<bar> < 2 ^ 53 \<Longrightarrow> float_of_int n = Inr (Finite (of_int n))"
proof -
  assume a: "\<bar>n\<bar> < 2 ^ 53"
  have "(2::int) ^ 53 \<le> 2 ^ 1024" by (rule power_increasing) simp_all
  then have "\<not> 2 ^ 1024 \<le> \<bar>n\<bar>" using a by linarith
  then show ?thesis using round_to_double_exact [OF a] by (simp add: float_of_int_def)
qed

lemma float_of_int_error: "float_of_int n = Inl err \<Longrightarrow> err = OverflowError"
  by (auto simp: float_of_int_def Let_def split: if_splits)

lemma to_float_error: "to_float x = Inl err \<Longrightarrow> err = OverflowError"
  by (cases x) (auto dest: float_of_int_error simp: to_float_def)

lemma to_float_Null: "to_float Null = Inr (Finite 0)"
  by (simp add: to_float_def)

lemma to_float_JInt: "\<bar>n\<bar> < 2 ^ 53 \<Longrightarrow> to_float (JInt n) = Inr (Finite (of_int n))"
  by (simp add: to_float_def float_of_int_exact)

lemma to_float_JFloat: "to_float (JFloat v) = Inr v"
  by (simp add: to_float_def)

text \<open>An integer of \<open>bitlen n\<close> bits lies between the two powers of two.\<close>

lemma bitlen_bounds: "0 < n \<Longrightarrow> 2 ^ bitlen n \<le> 2 * n \<and> n < 2 ^ bitlen n"
proof (induction n rule: bitlen.induct)
  case (1 n)
  have b: "bitlen n = Suc (bitlen (n div 2))" using "1.prems" by (simp add: bitlen.simps [of n])
  show ?case
  proof (cases "n div 2 \<le> 0")
    case True
    then have "n = 1" using "1.prems" by linarith
    then show ?thesis by (simp add: bitlen.simps [of 1] bitlen.simps [of 0])
  next
    case False
    then have "0 < n div 2" by simp
    then have ih: "2 ^ bitlen (n div 2) \<le> 2 * (n div 2)" "n div 2 < 2 ^ bitlen (n div 2)"
      using "1.IH" "1.prems" by simp_all
    define p :: int where "p = 2 ^ bitlen (n div 2)"
    have "2 * p \<le> 2 * n" "n < 2 * p" using ih unfolding p_def [symmetric] by linarith+
    then show ?thesis by (simp add: b p_def)
  qed
qed

text \<open>An integer of magnitude \<open>2 ^ 1024\<close> or more has no float.\<close>

lemma round_to_double_large:
  assumes "2 ^ 1024 \<le> \<bar>n\<bar>"
  shows "2 ^ 1024 \<le> \<bar>round_to_double n\<bar>"
proof -
  define P :: int where "P = 2 ^ 1024"
  define a where "a = \<bar>n\<bar>"
  define b where "b = bitlen a"
  define e where "e = b - 53"
  define q where "q = a div 2 ^ e"
  define q' where "q' = (if 2 ^ e < 2 * (a mod 2 ^ e) \<or> (2 * (a mod 2 ^ e) = 2 ^ e \<and> odd q)
                         then q + 1 else q)"
  have big: "P \<le> a" using assms unfolding P_def a_def .
  have "0 < P" unfolding P_def by (rule zero_less_power) simp
  then have pos: "0 < a" using big by linarith
  have bnd: "2 ^ b \<le> 2 * a" "a < 2 ^ b" using bitlen_bounds [OF pos] by (simp_all add: b_def)
  have lt: "(2::int) ^ 1024 < 2 ^ b" using big bnd(2) unfolding P_def by (rule le_less_trans)
  have one: "(1::int) < 2" by simp
  have b: "1024 < b" using one lt by (rule power_less_imp_less_exp)
  then have be: "b = Suc (e + 52)" by (simp add: e_def)
  have "(2::int) ^ b = 2 * 2 ^ (e + 52)" by (subst be) (rule power_Suc)
  then have "(2::int) ^ (e + 52) \<le> a" using bnd(1) by linarith
  then have "(2::int) ^ (e + 52) div 2 ^ e \<le> q" unfolding q_def by (rule zdiv_mono1) simp
  moreover have "(2::int) ^ (e + 52) div 2 ^ e = 2 ^ 52" by (simp add: power_add)
  ultimately have q: "2 ^ 52 \<le> q" by simp
  have q'q: "q \<le> q'" by (simp add: q'_def)
  have m1: "(2::int) ^ 52 * 2 ^ e \<le> q' * 2 ^ e" using q q'q by (intro mult_right_mono) simp_all
  have "1024 \<le> 52 + e" using b by (simp add: e_def)
  then have "(2::int) ^ 1024 \<le> 2 ^ (52 + e)" by (intro power_increasing) simp_all
  then have m2: "P \<le> 2 ^ 52 * 2 ^ e" unfolding P_def power_add .
  have m: "P \<le> q' * 2 ^ e" using m1 m2 by (rule order_trans [rotated])
  have r: "round_to_double n = sgn n * (q' * 2 ^ e)"
    by (simp add: round_to_double_def Let_def q'_def q_def e_def b_def a_def)
  have "n \<noteq> 0" using pos by (simp add: a_def)
  then have "\<bar>sgn n * (q' * 2 ^ e)\<bar> = \<bar>q' * 2 ^ e\<bar>" by (simp add: abs_mult)
  then have "P \<le> \<bar>round_to_double n\<bar>" using m r by linarith
  then show ?thesis unfolding P_def .
qed

lemma float_of_int_overflow: "2 ^ 1024 \<le> \<bar>n\<bar> \<Longrightarrow> float_of_int n = Inl OverflowError"
  using round_to_double_large [of n] by (simp add: float_of_int_def Let_def)

lemma ten_400: "(2::int) ^ 1024 \<le> \<bar>10 ^ 400\<bar>"
proof -
  have "(2::int) ^ 1024 \<le> 2 ^ 1200" by (intro power_increasing) simp_all
  also have "\<dots> = (8::int) ^ 400" by (simp flip: power_mult)
  also have "\<dots> \<le> 10 ^ 400" by (intro power_mono) simp_all
  finally show ?thesis by simp
qed

lemma to_float_large: "2 ^ 1024 \<le> \<bar>n\<bar> \<Longrightarrow> to_float (JInt n) = Inl OverflowError"
  by (simp add: to_float_def float_of_int_overflow)

lemma to_float_overflow: "to_float (JInt (10 ^ 400)) = Inl OverflowError"
  using ten_400 by (rule to_float_large)

section \<open>The two loops\<close>

lemma column_in_columns: "c \<in> set columns"
  by (cases c) (simp_all add: columns_def)

lemma fill_columns_index:
  "fill_columns e d cs fr = Inr fr' \<Longrightarrow> index fr' = index fr"
  by (induction cs arbitrary: fr)
     (auto simp: loc_get_def loc_set_def split: sum.splits if_splits option.splits)

lemma fill_columns_label:
  "fill_columns e d cs fr = Inr fr' \<Longrightarrow> cs \<noteq> [] \<Longrightarrow> d \<in> set (index fr)"
  by (cases cs) (auto simp: loc_get_def split: sum.splits if_splits option.splits)

text \<open>
  One pass of the inner loop writes the entry's float into every slot of its row that was
  NaN, and nothing else.
\<close>

lemma fill_columns_cell:
  "fill_columns e d cs fr = Inr fr' \<Longrightarrow>
   cell fr' d' c' =
     (if d' = d \<and> c' \<in> set cs \<and> isna (cell fr d c') then float_value e c' else cell fr d' c')"
proof (induction cs arbitrary: fr)
  case Nil
  then show ?case by simp
next
  case (Cons c cs)
  show ?case
  proof (cases "isna (cell fr d c)")
    case True
    with Cons.prems obtain x v where x: "col e c = Some x" "to_float x = Inr v"
      and rest: "fill_columns e d cs (loc_set fr d c v) = Inr fr'"
      by (auto simp: loc_get_def split: sum.splits if_splits option.splits)
    have v: "float_value e c = v" using x by (simp add: float_value_def)
    show ?thesis
      using Cons.IH [OF rest] True v by (auto simp: loc_set_def isna_def)
  next
    case False
    with Cons.prems have rest: "fill_columns e d cs fr = Inr fr'"
      by (auto simp: loc_get_def split: sum.splits if_splits option.splits)
    show ?thesis using Cons.IH [OF rest] False by auto
  qed
qed

text \<open>A slot that is NaN makes the loop read and convert the entry's value.\<close>

lemma fill_columns_key:
  "fill_columns e d cs fr = Inr fr' \<Longrightarrow> c \<in> set cs \<Longrightarrow> isna (cell fr d c) \<Longrightarrow>
   \<exists>x v. col e c = Some x \<and> to_float x = Inr v"
proof (induction cs arbitrary: fr)
  case Nil
  then show ?case by simp
next
  case (Cons c' cs)
  show ?case
  proof (cases "isna (cell fr d c')")
    case True
    with Cons.prems(1) obtain x v where x: "col e c' = Some x" "to_float x = Inr v"
      and rest: "fill_columns e d cs (loc_set fr d c' v) = Inr fr'"
      by (auto simp: loc_get_def split: sum.splits if_splits option.splits)
    show ?thesis
    proof (cases "c = c'")
      case True
      then show ?thesis using x by simp
    next
      case False
      then have "isna (cell (loc_set fr d c' v) d c)"
        using Cons.prems(3) by (simp add: loc_set_def)
      then show ?thesis using Cons.IH [OF rest] Cons.prems(2) False by simp
    qed
  next
    case False
    with Cons.prems(1) have rest: "fill_columns e d cs fr = Inr fr'"
      by (auto simp: loc_get_def split: sum.splits if_splits option.splits)
    have "c \<noteq> c'" using False Cons.prems(3) by auto
    then show ?thesis using Cons.IH [OF rest] Cons.prems(2,3) by simp
  qed
qed

lemma fill_columns_ok:
  "d \<in> set (index fr) \<Longrightarrow> \<forall>c \<in> set cs. \<exists>x v. col e c = Some x \<and> to_float x = Inr v \<Longrightarrow>
   \<exists>fr'. fill_columns e d cs fr = Inr fr'"
proof (induction cs arbitrary: fr)
  case Nil
  then show ?case by simp
next
  case (Cons c cs)
  from Cons.prems(2) obtain x v where x: "col e c = Some x" "to_float x = Inr v" by auto
  have "d \<in> set (index (loc_set fr d c v))" using Cons.prems(1) by (simp add: loc_set_def)
  then have 1: "\<exists>fr'. fill_columns e d cs (loc_set fr d c v) = Inr fr'"
    using Cons.IH Cons.prems(2) by simp
  have 2: "\<exists>fr'. fill_columns e d cs fr = Inr fr'"
    using Cons.IH Cons.prems by simp
  show ?case using 1 2 x Cons.prems(1) by (simp add: loc_get_def)
qed

lemma fill_entries_Cons_Inr:
  assumes "fill_entries pd (x # es) fr = Inr fr'"
  obtains d fr1 where "parsed_date pd x = Inr d" "fill_columns x d columns fr = Inr fr1"
    "fill_entries pd es fr1 = Inr fr'"
  using assms by (auto split: sum.splits)

lemma fill_entries_index:
  "fill_entries pd es fr = Inr fr' \<Longrightarrow> index fr' = index fr"
  by (induction es arbitrary: fr)
     (auto split: sum.splits dest: fill_columns_index)

lemma fill_entries_dates:
  "fill_entries pd es fr = Inr fr' \<Longrightarrow> e \<in> set es \<Longrightarrow>
   \<exists>d. parsed_date pd e = Inr d \<and> d \<in> set (index fr)"
proof (induction es arbitrary: fr)
  case Nil
  then show ?case by simp
next
  case (Cons x es)
  from Cons.prems(1) obtain d fr1 where
    x: "parsed_date pd x = Inr d" "fill_columns x d columns fr = Inr fr1"
    and rest: "fill_entries pd es fr1 = Inr fr'"
    by (rule fill_entries_Cons_Inr)
  have idx: "index fr1 = index fr" using x(2) by (rule fill_columns_index)
  have "d \<in> set (index fr)" using fill_columns_label [OF x(2)] by (simp add: columns_def)
  then show ?case using Cons.IH [OF rest] Cons.prems(2) x idx by auto
qed

text \<open>The loop over a list in two parts is the loop over the first part, then over the second.\<close>

lemma fill_entries_append:
  "fill_entries pd (xs @ ys) fr =
     (case fill_entries pd xs fr of Inl err \<Rightarrow> Inl err | Inr fr1 \<Rightarrow> fill_entries pd ys fr1)"
  by (induction xs arbitrary: fr) (auto split: sum.splits)

text \<open>
  A slot that is not NaN is never written again; a slot that is NaN holds, after the loop,
  the first float that is not NaN among the entries of the slot's date, in list order, or
  is still NaN when there is none.
\<close>

lemma fill_entries_cell:
  "fill_entries pd es fr = Inr fr' \<Longrightarrow>
   cell fr' d c = (if isna (cell fr d c) then first_value pd d c es else cell fr d c)"
proof (induction es arbitrary: fr)
  case Nil
  then show ?case by (simp add: isna_def)
next
  case (Cons x es)
  from Cons.prems(1) obtain dx fr1 where
    x: "parsed_date pd x = Inr dx" "fill_columns x dx columns fr = Inr fr1"
    and rest: "fill_entries pd es fr1 = Inr fr'"
    by (rule fill_entries_Cons_Inr)
  have c1: "cell fr1 d c =
     (if d = dx \<and> isna (cell fr d c) then float_value x c else cell fr d c)"
    using fill_columns_cell [OF x(2), of d c] by (auto simp: column_in_columns)
  have ih: "cell fr' d c = (if isna (cell fr1 d c) then first_value pd d c es else cell fr1 d c)"
    by (rule Cons.IH [OF rest])
  show ?case
  proof (cases "isna (cell fr d c)")
    case False
    then have "cell fr1 d c = cell fr d c" using c1 by simp
    then show ?thesis using ih False by simp
  next
    case True
    show ?thesis
    proof (cases "d = dx")
      case True
      then show ?thesis using c1 ih \<open>isna (cell fr d c)\<close> x(1) by simp
    next
      case False
      then have "parsed_date pd x \<noteq> Inr d" using x(1) by simp
      then show ?thesis using c1 ih \<open>isna (cell fr d c)\<close> False by simp
    qed
  qed
qed

text \<open>The key the first entry of a date is asked for is present, or the loop has failed.\<close>

lemma fill_entries_key:
  "fill_entries pd es fr = Inr fr' \<Longrightarrow> isna (cell fr d c) \<Longrightarrow>
   first_entry pd d es = Some e \<Longrightarrow> \<exists>x v. col e c = Some x \<and> to_float x = Inr v"
proof (induction es arbitrary: fr)
  case Nil
  then show ?case by (simp add: first_entry_def)
next
  case (Cons x es)
  from Cons.prems(1) obtain dx fr1 where
    x: "parsed_date pd x = Inr dx" "fill_columns x dx columns fr = Inr fr1"
    and rest: "fill_entries pd es fr1 = Inr fr'"
    by (rule fill_entries_Cons_Inr)
  show ?case
  proof (cases "d = dx")
    case True
    then have "e = x" using Cons.prems(3) x(1) by (simp add: first_entry_def)
    then show ?thesis
      using fill_columns_key [OF x(2), of c] Cons.prems(2) True column_in_columns by simp
  next
    case False
    then have "isna (cell fr1 d c)"
      using fill_columns_cell [OF x(2), of d c] Cons.prems(2) by simp
    moreover have "first_entry pd d es = Some e"
      using Cons.prems(3) x(1) False by (simp add: first_entry_def)
    ultimately show ?thesis using Cons.IH [OF rest] by simp
  qed
qed

lemma fill_entries_ok:
  "\<forall>e \<in> set es. \<exists>d. parsed_date pd e = Inr d \<and> d \<in> set (index fr)
      \<and> (\<forall>c. \<exists>x v. col e c = Some x \<and> to_float x = Inr v) \<Longrightarrow>
   \<exists>fr'. fill_entries pd es fr = Inr fr'"
proof (induction es arbitrary: fr)
  case Nil
  then show ?case by simp
next
  case (Cons x es)
  then obtain d where d: "parsed_date pd x = Inr d" "d \<in> set (index fr)"
    "\<forall>c. \<exists>y v. col x c = Some y \<and> to_float y = Inr v"
    by auto
  obtain fr1 where fr1: "fill_columns x d columns fr = Inr fr1"
    using fill_columns_ok [of d fr columns x] d by auto
  have "index fr1 = index fr" using fr1 by (rule fill_columns_index)
  then obtain fr' where "fill_entries pd es fr1 = Inr fr'"
    using Cons.IH [of fr1] Cons.prems by auto
  then show ?case using d fr1 by simp
qed

text \<open>The first entry of a date and the first float of a date.\<close>

lemma first_entry_None:
  "first_entry pd d es = None \<longleftrightarrow> (\<forall>e \<in> set es. parsed_date pd e \<noteq> Inr d)"
  by (auto simp: first_entry_def find_None_iff)

lemma first_entry_append:
  "\<forall>e \<in> set xs. parsed_date pd e \<noteq> Inr d \<Longrightarrow> parsed_date pd e1 = Inr d \<Longrightarrow>
   first_entry pd d (xs @ e1 # ys) = Some e1"
  by (induction xs) (simp_all add: first_entry_def)

lemma first_value_None:
  "first_entry pd d es = None \<Longrightarrow> first_value pd d c es = NaN"
  by (induction es) (auto simp: first_entry_def split: if_splits)

lemma first_value_Some:
  "first_entry pd d es = Some e \<Longrightarrow> \<not> isna (float_value e c) \<Longrightarrow>
   first_value pd d c es = float_value e c"
  by (induction es) (auto simp: first_entry_def split: if_splits)

text \<open>
  When the first entry of a date gives NaN for a column, the value of the next entry of
  that date is taken, and so on.
\<close>

lemma first_value_skip:
  "\<forall>e \<in> set xs. parsed_date pd e = Inr d \<longrightarrow> isna (float_value e c) \<Longrightarrow>
   first_value pd d c (xs @ ys) = first_value pd d c ys"
  by (induction xs) auto

section \<open>What a returned table looks like\<close>

lemma dates_of_Inr:
  "dates_of es = Inr ss \<Longrightarrow> map date es = map Some ss"
  by (induction es arbitrary: ss) (auto split: option.splits sum.splits)

lemma dates_of_ok:
  "\<forall>e \<in> set es. date e \<noteq> None \<Longrightarrow> \<exists>ss. dates_of es = Inr ss"
  by (induction es) (auto split: option.splits sum.splits)

lemma dates_of_member:
  assumes "dates_of es = Inr ss" "s \<in> set ss"
  shows "\<exists>e \<in> set es. date e = Some s"
proof -
  have "Some s \<in> set (map Some ss)" using assms(2) by simp
  then have "Some s \<in> set (map date es)" using dates_of_Inr [OF assms(1)] by simp
  then show ?thesis by auto
qed

lemma dates_of_member':
  assumes "dates_of es = Inr ss" "e \<in> set es"
  shows "\<exists>s \<in> set ss. date e = Some s"
proof -
  have "date e \<in> set (map date es)" using assms(2) by simp
  then have "date e \<in> set (map Some ss)" using dates_of_Inr [OF assms(1)] by simp
  then show ?thesis by auto
qed

lemma dates_of_length: "dates_of es = Inr ss \<Longrightarrow> length ss = length es"
  using dates_of_Inr [of es ss] by (metis length_map)

lemma sort_bounds:
  fixes xs :: "'a::linorder list"
  assumes "x \<in> set xs"
  shows "hd (sort xs) \<le> x" and "x \<le> last (sort xs)"
proof -
  have ne: "sort xs \<noteq> []" using assms by (metis list.set(1) set_sort empty_iff)
  have x: "x \<in> set (sort xs)" using assms by simp
  have "sorted (sort xs)" by simp
  then show "hd (sort xs) \<le> x"
    using x ne by (cases "sort xs") auto
  obtain ys y where ys: "sort xs = ys @ [y]" using ne by (metis rev_exhaust)
  then have "sorted (ys @ [y])" using \<open>sorted (sort xs)\<close> by simp
  then have "\<forall>z \<in> set ys. z \<le> y" by (simp add: sorted_append)
  then show "x \<le> last (sort xs)" using x ys by auto
qed

lemma sort_ends:
  fixes xs :: "'a::linorder list"
  assumes "xs \<noteq> []"
  shows "hd (sort xs) \<in> set xs" and "last (sort xs) \<in> set xs"
proof -
  have ne: "sort xs \<noteq> []" using assms by (metis length_0_conv length_sort)
  show "hd (sort xs) \<in> set xs" using hd_in_set [OF ne] by simp
  show "last (sort xs) \<in> set xs" using last_in_set [OF ne] by simp
qed

lemma parse_date_error: "parse_date pd s = Inl err \<Longrightarrow> err = ValueError"
  by (auto simp: parse_date_def split: option.splits)

lemma parse_date_Inr: "parse_date pd s = Inr t \<longleftrightarrow> pd s = Some t"
  by (auto simp: parse_date_def split: option.splits)

lemma date_range_error: "date_range a b = Inl err \<Longrightarrow> err = ValueError"
  by (auto simp: date_range_def split: timestamp.splits)

lemma date_range_Inr:
  assumes "date_range startdate enddate = Inr idx"
  obtains a b where "startdate = Timestamp a" "enddate = Timestamp b"
    "idx = map Timestamp [a..b]"
  using assms by (auto simp: date_range_def split: timestamp.splits)

lemma wrangle_data_Inr:
  assumes "wrangle_data pd raw = Inr t"
  obtains datalist ss startdate enddate idx fr where
    "data raw = Some datalist" "dates_of datalist = Inr ss" "ss \<noteq> []"
    "parse_date pd (hd (sort ss)) = Inr startdate"
    "parse_date pd (last (sort ss)) = Inr enddate"
    "date_range startdate enddate = Inr idx"
    "fill_entries pd datalist (DataFrame idx) = Inr fr"
    "t = fillna (Finite 0) fr"
proof -
  from assms obtain datalist where 1: "data raw = Some datalist"
    by (auto simp: wrangle_data_def split: option.splits)
  from assms 1 obtain ss where 2: "dates_of datalist = Inr ss"
    by (auto simp: wrangle_data_def split: sum.splits)
  from assms 1 2 have 3: "ss \<noteq> []"
    by (auto simp: wrangle_data_def Let_def split: if_splits)
  then have ne: "sort ss \<noteq> []" by (metis length_0_conv length_sort)
  from assms 1 2 ne obtain startdate where 4: "parse_date pd (hd (sort ss)) = Inr startdate"
    by (auto simp: wrangle_data_def Let_def split: sum.splits)
  from assms 1 2 ne 4 obtain enddate where 5: "parse_date pd (last (sort ss)) = Inr enddate"
    by (auto simp: wrangle_data_def Let_def split: sum.splits)
  from assms 1 2 ne 4 5 obtain idx where 6: "date_range startdate enddate = Inr idx"
    by (auto simp: wrangle_data_def Let_def split: sum.splits)
  from assms 1 2 ne 4 5 6 obtain fr where
    7: "fill_entries pd datalist (DataFrame idx) = Inr fr"
    and 8: "t = fillna (Finite 0) fr"
    by (auto simp: wrangle_data_def Let_def split: sum.splits)
  show ?thesis using that [OF 1 2 3 4 5 6 7 8] .
qed

lemma set_timestamps:
  "set (timestamps pd es) = {d. \<exists>e \<in> set es. parsed_date pd e = Inr (Timestamp d)}"
  by (induction es)
     (auto simp: timestamps_def split: sum.splits timestamp.splits)

text \<open>
  The table a successful call returns: its index is the run of days from the earliest to
  the latest parsed date, and each cell of a day holds the first float that is not NaN
  among the entries of that day, or 0.0 when there is none.
\<close>

lemma wrangle_data_table:
  assumes "wrangle_data pd raw = Inr t" "data raw = Some datalist"
  shows "datalist \<noteq> []"
    and "\<forall>e \<in> set datalist. \<exists>d. parsed_date pd e = Inr (Timestamp d)"
    and "earliest pd datalist \<le> latest pd datalist"
    and "index t = map Timestamp [earliest pd datalist..latest pd datalist]"
    and "cell t d c =
          (if d \<in> set (index t) \<and> isna (first_value pd d c datalist) then Finite 0
           else first_value pd d c datalist)"
    and "first_entry pd d datalist = Some e \<Longrightarrow> \<exists>x v. col e c = Some x \<and> to_float x = Inr v"
proof -
  from assms(1) obtain datalist' ss startdate enddate idx fr where w:
    "data raw = Some datalist'" "dates_of datalist' = Inr ss" "ss \<noteq> []"
    "parse_date pd (hd (sort ss)) = Inr startdate"
    "parse_date pd (last (sort ss)) = Inr enddate"
    "date_range startdate enddate = Inr idx"
    "fill_entries pd datalist' (DataFrame idx) = Inr fr"
    "t = fillna (Finite 0) fr"
    by (rule wrangle_data_Inr)
  have dl: "datalist' = datalist" using w(1) assms(2) by simp
  note w = w [unfolded dl]
  from w(6) obtain a b where ab: "startdate = Timestamp a" "enddate = Timestamp b"
    "idx = map Timestamp [a..b]"
    by (rule date_range_Inr)
  have idx: "index fr = map Timestamp [a..b]"
    using fill_entries_index [OF w(7)] ab(3) by (simp add: DataFrame_def)
  have idxt: "index t = map Timestamp [a..b]" using idx w(8) by (simp add: fillna_def)
  show ne: "datalist \<noteq> []" using w(2,3) by auto
  have all: "\<exists>d. parsed_date pd e = Inr (Timestamp d) \<and> a \<le> d \<and> d \<le> b"
    if "e \<in> set datalist" for e
    using fill_entries_dates [OF w(7) that] ab(3) by (auto simp: DataFrame_def)
  then show "\<forall>e \<in> set datalist. \<exists>d. parsed_date pd e = Inr (Timestamp d)" by blast
  have s_in: "a \<in> set (timestamps pd datalist)"
  proof -
    have "hd (sort ss) \<in> set ss" using w(3) by (rule sort_ends)
    then obtain e where "e \<in> set datalist" "date e = Some (hd (sort ss))"
      using dates_of_member [OF w(2)] by blast
    moreover from this have "parsed_date pd e = Inr (Timestamp a)"
      using w(4) ab(1) by (simp add: parsed_date_def)
    ultimately show ?thesis unfolding set_timestamps by blast
  qed
  have e_in: "b \<in> set (timestamps pd datalist)"
  proof -
    have "last (sort ss) \<in> set ss" using w(3) by (rule sort_ends)
    then obtain e where "e \<in> set datalist" "date e = Some (last (sort ss))"
      using dates_of_member [OF w(2)] by blast
    moreover from this have "parsed_date pd e = Inr (Timestamp b)"
      using w(5) ab(2) by (simp add: parsed_date_def)
    ultimately show ?thesis unfolding set_timestamps by blast
  qed
  have bounds: "a \<le> d' \<and> d' \<le> b" if "d' \<in> set (timestamps pd datalist)" for d'
    using that all by (fastforce simp: set_timestamps)
  have lo: "earliest pd datalist = a"
    unfolding earliest_def using s_in bounds by (intro Min_eqI) auto
  have hi: "latest pd datalist = b"
    unfolding latest_def using e_in bounds by (intro Max_eqI) auto
  show "earliest pd datalist \<le> latest pd datalist" using lo hi bounds [OF s_in] by simp
  show "index t = map Timestamp [earliest pd datalist..latest pd datalist]"
    using idxt lo hi by simp
  have cellfr: "cell fr d c = first_value pd d c datalist"
    using fill_entries_cell [OF w(7), of d c] by (simp add: DataFrame_def isna_def)
  show "cell t d c =
          (if d \<in> set (index t) \<and> isna (first_value pd d c datalist) then Finite 0
           else first_value pd d c datalist)"
    using cellfr idx idxt w(8) by (auto simp: fillna_def)
  show "\<exists>x v. col e c = Some x \<and> to_float x = Inr v" if "first_entry pd d datalist = Some e"
    using fill_entries_key [OF w(7) _ that, of c] by (simp add: DataFrame_def isna_def)
qed

text \<open>Every date of the list is a day of the index.\<close>

lemma wrangle_data_covers:
  assumes "wrangle_data pd raw = Inr t" "data raw = Some datalist"
    and "e \<in> set datalist" "parsed_date pd e = Inr d"
  shows "d \<in> set (index t)"
proof -
  from assms(1) obtain datalist' idx fr where w:
    "data raw = Some datalist'"
    "fill_entries pd datalist' (DataFrame idx) = Inr fr"
    "t = fillna (Finite 0) fr"
    by (rule wrangle_data_Inr)
  have "datalist' = datalist" using w(1) assms(2) by simp
  then have "\<exists>d'. parsed_date pd e = Inr d' \<and> d' \<in> set (index (DataFrame idx))"
    using fill_entries_dates [OF w(2), of e] assms(3) by simp
  then have "d \<in> set (index (DataFrame idx))"
    using assms(4) by simp
  then show ?thesis using fill_entries_index [OF w(2)] w(3) by (simp add: fillna_def)
qed

text \<open>
  When every entry has its five keys, values that \<open>float()\<close> converts, and a zero-padded
  date that the parser reads as the day it spells, the string order the source sorts by is
  the order of the dates, and the call returns a table.
\<close>

lemma wrangle_data_ok:
  assumes "data raw = Some datalist" "datalist \<noteq> []"
    and "\<forall>e \<in> set datalist. \<exists>s d. date e = Some s \<and> iso_day s = Some d
           \<and> pd s = Some (Timestamp d)
           \<and> (\<forall>c. \<exists>x v. col e c = Some x \<and> to_float x = Inr v)"
  shows "\<exists>t. wrangle_data pd raw = Inr t"
proof -
  have "\<forall>e \<in> set datalist. date e \<noteq> None" using assms(3) by fastforce
  then obtain ss where ss: "dates_of datalist = Inr ss" using dates_of_ok by blast
  have ne: "ss \<noteq> []" using dates_of_length [OF ss] assms(2) by auto
  have iso: "\<exists>d. iso_day s = Some d \<and> pd s = Some (Timestamp d)" if "s \<in> set ss" for s
    using dates_of_member [OF ss that] assms(3) by fastforce
  obtain a where st: "iso_day (hd (sort ss)) = Some a" "pd (hd (sort ss)) = Some (Timestamp a)"
    using iso [OF sort_ends(1) [OF ne]] by blast
  obtain b where en: "iso_day (last (sort ss)) = Some b"
    "pd (last (sort ss)) = Some (Timestamp b)"
    using iso [OF sort_ends(2) [OF ne]] by blast
  have "\<exists>d. parsed_date pd e = Inr d \<and> d \<in> set (index (DataFrame (map Timestamp [a..b])))
          \<and> (\<forall>c. \<exists>x v. col e c = Some x \<and> to_float x = Inr v)" if e: "e \<in> set datalist" for e
  proof -
    from assms(3) e obtain s d where s: "date e = Some s" "iso_day s = Some d"
      "pd s = Some (Timestamp d)" "\<forall>c. \<exists>x v. col e c = Some x \<and> to_float x = Inr v" by blast
    have mem: "s \<in> set ss" using dates_of_member' [OF ss e] s(1) by auto
    have "a \<le> d" using iso_day_mono [OF st(1) s(2) sort_bounds(1) [OF mem]] .
    moreover have "d \<le> b" using iso_day_mono [OF s(2) en(1) sort_bounds(2) [OF mem]] .
    ultimately show ?thesis
      using s by (simp add: parsed_date_def parse_date_def DataFrame_def)
  qed
  then obtain fr where "fill_entries pd datalist (DataFrame (map Timestamp [a..b])) = Inr fr"
    using fill_entries_ok by blast
  moreover have "sort ss \<noteq> []" using ne by (metis length_0_conv length_sort)
  ultimately show ?thesis
    using assms(1) ss st(2) en(2)
    by (simp add: wrangle_data_def Let_def parse_date_def date_range_def)
qed

section \<open>Evaluating the sample inputs\<close>

lemma to_datetime_2021_01_01: "to_datetime ''2021-01-01'' = Some (Timestamp 737791)"
  by code_simp

lemma to_datetime_2021_01_02: "to_datetime ''2021-01-02'' = Some (Timestamp 737792)"
  by code_simp

lemma to_datetime_2021_01_03: "to_datetime ''2021-01-03'' = Some (Timestamp 737793)"
  by code_simp

lemma to_datetime_2021_10_01: "to_datetime ''2021-10-01'' = Some (Timestamp 738064)"
  by code_simp

lemma to_datetime_2021_9_01: "to_datetime ''2021-9-01'' = Some (Timestamp 738034)"
  by code_simp

lemma to_datetime_bad: "to_datetime ''2021-01-02x'' = None"
  by code_simp

lemma iso_day_2021_01_01: "iso_day ''2021-01-01'' = Some 737791"
  by code_simp

lemma iso_day_2021_01_03: "iso_day ''2021-01-03'' = Some 737793"
  by code_simp

lemma parse_2021_01_01: "parse_date to_datetime ''2021-01-01'' = Inr (Timestamp 737791)"
  by (simp add: parse_date_def to_datetime_2021_01_01)

lemma parse_2021_01_02: "parse_date to_datetime ''2021-01-02'' = Inr (Timestamp 737792)"
  by (simp add: parse_date_def to_datetime_2021_01_02)

lemma parse_2021_01_03: "parse_date to_datetime ''2021-01-03'' = Inr (Timestamp 737793)"
  by (simp add: parse_date_def to_datetime_2021_01_03)

lemma parse_2021_10_01: "parse_date to_datetime ''2021-10-01'' = Inr (Timestamp 738064)"
  by (simp add: parse_date_def to_datetime_2021_10_01)

lemma parse_2021_9_01: "parse_date to_datetime ''2021-9-01'' = Inr (Timestamp 738034)"
  by (simp add: parse_date_def to_datetime_2021_9_01)

lemma parse_bad: "parse_date to_datetime ''2021-01-02x'' = Inl ValueError"
  by (simp add: parse_date_def to_datetime_bad)

lemma ymd_2021: "ymd2ord 2021 1 1 = 737791" "ymd2ord 2021 1 2 = 737792" "ymd2ord 2021 1 3 = 737793"
   "ymd2ord 2021 9 1 = 738034" "ymd2ord 2021 10 1 = 738064"
  by (simp_all add: ymd2ord_def days_before_year_def days_before_month_def is_leap_def)

lemmas frame_defs = date_range_def DataFrame_def columns_def loc_get_def loc_set_def isna_def
  fillna_def to_float_Null to_float_JInt to_float_JFloat to_float_large parsed_date_def
  make_entry_def

lemma make_entry_date: "date (make_entry s b c f g) = Some s"
  by (simp add: make_entry_def)

lemma make_entry_floats:
  assumes "\<exists>v. to_float b = Inr v" "\<exists>v. to_float c = Inr v" "\<exists>v. to_float f = Inr v"
    "\<exists>v. to_float g = Inr v"
  shows "\<forall>k. \<exists>x v. col (make_entry s b c f g) k = Some x \<and> to_float x = Inr v"
proof
  fix k
  show "\<exists>x v. col (make_entry s b c f g) k = Some x \<and> to_float x = Inr v"
    using assms by (cases k) (simp_all add: make_entry_def)
qed

lemma example_dates:
  "timestamps to_datetime
     [make_entry ''2021-01-01'' b1 c1 f1 g1, make_entry ''2021-01-03'' b2 c2 f2 g2]
     = [737791, 737793]"
  by (simp add: timestamps_def parsed_date_def make_entry_def
      parse_2021_01_01 parse_2021_01_03)

lemma example_table:
  "wrangle_data to_datetime example_input =
     Inr (fillna (Finite 0)
       \<lparr>index = [Timestamp 737791, Timestamp 737792, Timestamp 737793],
        cell = (\<lambda>d c. NaN)
          (Timestamp 737791 := (\<lambda>c. NaN)
             (beds := Finite 10, cases := Finite 100, firstDose := Finite 0,
              secondDose := Finite 0),
           Timestamp 737793 := (\<lambda>c. NaN)
             (beds := Finite 12, cases := Finite 90, firstDose := Finite 500,
              secondDose := Finite 0))\<rparr>)"
  by (simp add: wrangle_data_def example_input_def frame_defs parse_2021_01_01 parse_2021_01_03
      fun_upd_twist upto_rec1)

lemma example_index:
  "wrangle_data to_datetime example_input = Inr t \<Longrightarrow>
   index t = [Timestamp 737791, Timestamp 737792, Timestamp 737793]"
  by (auto simp: example_table fillna_def)

lemma duplicate_table:
  "wrangle_data to_datetime duplicate_input =
     Inr (fillna (Finite 0)
       \<lparr>index = [Timestamp 737791],
        cell = (\<lambda>d c. NaN)
          (Timestamp 737791 := (\<lambda>c. NaN)
             (beds := Finite 0, cases := Finite 1, firstDose := Finite 2,
              secondDose := Finite 3))\<rparr>)"
  by (simp add: wrangle_data_def duplicate_input_def frame_defs parse_2021_01_01 fun_upd_twist
      upto_rec1)

lemma swapped_table:
  "wrangle_data to_datetime swapped_input =
     Inr (fillna (Finite 0)
       \<lparr>index = [Timestamp 737791],
        cell = (\<lambda>d c. NaN)
          (Timestamp 737791 := (\<lambda>c. NaN)
             (beds := Finite 7, cases := Finite 8, firstDose := Finite 9,
              secondDose := Finite 10))\<rparr>)"
  by (simp add: wrangle_data_def swapped_input_def frame_defs parse_2021_01_01 fun_upd_twist
      upto_rec1)

lemma nan_first_table:
  "wrangle_data to_datetime nan_first_input =
     Inr (fillna (Finite 0)
       \<lparr>index = [Timestamp 737791],
        cell = (\<lambda>d c. NaN)
          (Timestamp 737791 := (\<lambda>c. NaN)
             (beds := Finite 5, cases := Finite 8, firstDose := Finite 2,
              secondDose := Finite 3))\<rparr>)"
  by (simp add: wrangle_data_def nan_first_input_def frame_defs parse_2021_01_01 fun_upd_twist
      upto_rec1)

section \<open>Further facts about the wrangler and the callback\<close>

lemma dates_of_error: "dates_of es = Inl err \<Longrightarrow> err = KeyError"
  by (induction es) (auto split: option.splits sum.splits)

lemma parsed_date_error: "parsed_date pd e = Inl err \<Longrightarrow> err = KeyError \<or> err = ValueError"
  by (auto simp: parsed_date_def split: option.splits dest: parse_date_error)

lemma fill_columns_error:
  "fill_columns e d cs fr = Inl err \<Longrightarrow> err = KeyError \<or> err = OverflowError"
  by (induction cs arbitrary: fr)
     (auto simp: loc_get_def split: sum.splits if_splits option.splits dest: to_float_error)

lemma fill_entries_error:
  "fill_entries pd es fr = Inl err \<Longrightarrow>
   err = KeyError \<or> err = ValueError \<or> err = OverflowError"
  by (induction es arbitrary: fr)
     (auto split: sum.splits dest: parsed_date_error fill_columns_error)

text \<open>\<open>IndexError\<close> comes from \<open>dates[0]\<close> on the empty list and from nowhere else.\<close>

lemma wrangle_data_IndexError:
  assumes "wrangle_data pd raw = Inl IndexError"
  shows "data raw = Some []"
proof -
  from assms obtain datalist where dl: "data raw = Some datalist"
    by (auto simp: wrangle_data_def split: option.splits)
  from assms dl obtain ss where ss: "dates_of datalist = Inr ss"
    by (auto simp: wrangle_data_def split: sum.splits dest: dates_of_error)
  have "sort ss = []"
  proof (rule ccontr)
    assume ne: "sort ss \<noteq> []"
    show False
    proof (cases "parse_date pd (hd (sort ss))")
      case (Inl err)
      then show False using assms dl ss ne parse_date_error [OF Inl]
        by (simp add: wrangle_data_def Let_def)
    next
      case st: (Inr startdate)
      show False
      proof (cases "parse_date pd (last (sort ss))")
        case (Inl err)
        then show False using assms dl ss ne st parse_date_error [OF Inl]
          by (simp add: wrangle_data_def Let_def)
      next
        case en: (Inr enddate)
        show False
        proof (cases "date_range startdate enddate")
          case (Inl err)
          then show False using assms dl ss ne st en date_range_error [OF Inl]
            by (simp add: wrangle_data_def Let_def)
        next
          case idx: (Inr idx)
          show False
          proof (cases "fill_entries pd datalist (DataFrame idx)")
            case (Inl err)
            then show False using assms dl ss ne st en idx fill_entries_error [OF Inl]
              by (auto simp: wrangle_data_def Let_def)
          next
            case (Inr fr)
            then show False using assms dl ss ne st en idx
              by (simp add: wrangle_data_def Let_def)
          qed
        qed
      qed
    qed
  qed
  then have "ss = []" by (metis length_0_conv length_sort)
  then have "datalist = []" using dates_of_length [OF ss] by simp
  then show ?thesis using dl by simp
qed

text \<open>
  When nothing else can fail, the loop stops at the first entry whose date the parser
  refuses.
\<close>

lemma fill_entries_ValueError:
  assumes "\<forall>e \<in> set es. (\<forall>c. \<exists>x v. col e c = Some x \<and> to_float x = Inr v)
             \<and> (parsed_date pd e = Inl ValueError
                \<or> (\<exists>d. parsed_date pd e = Inr d \<and> d \<in> set (index fr)))"
    and "\<exists>e \<in> set es. parsed_date pd e = Inl ValueError"
  shows "fill_entries pd es fr = Inl ValueError"
  using assms
proof (induction es arbitrary: fr)
  case Nil
  then show ?case by simp
next
  case (Cons x es)
  show ?case
  proof (cases "parsed_date pd x")
    case (Inl err)
    then have "err = ValueError" using Cons.prems(1) by auto
    then show ?thesis using Inl by simp
  next
    case (Inr d)
    then have d: "d \<in> set (index fr)"
      and keys: "\<forall>c. \<exists>y v. col x c = Some y \<and> to_float y = Inr v"
      using Cons.prems(1) by auto
    obtain fr1 where fr1: "fill_columns x d columns fr = Inr fr1"
      using fill_columns_ok [of d fr columns x] d keys by auto
    have idx: "index fr1 = index fr" using fr1 by (rule fill_columns_index)
    have "\<exists>e \<in> set es. parsed_date pd e = Inl ValueError" using Cons.prems(2) Inr by auto
    moreover have "\<forall>e \<in> set es. (\<forall>c. \<exists>x v. col e c = Some x \<and> to_float x = Inr v)
             \<and> (parsed_date pd e = Inl ValueError
                \<or> (\<exists>d. parsed_date pd e = Inr d \<and> d \<in> set (index fr1)))"
      using Cons.prems(1) idx by simp
    ultimately have "fill_entries pd es fr1 = Inl ValueError" by (rule Cons.IH [rotated])
    then show ?thesis using Inr fr1 by simp
  qed
qed

lemma wrangle_data_ValueError:
  assumes dl: "data raw = Some datalist"
    and bad: "e \<in> set datalist" "date e = Some s" "pd s = None"
    and nice: "\<forall>e' \<in> set datalist. (\<forall>c. \<exists>x v. col e' c = Some x \<and> to_float x = Inr v)
        \<and> (\<exists>s'. date e' = Some s'
              \<and> (pd s' = None \<or> (\<exists>d. iso_day s' = Some d \<and> pd s' = Some (Timestamp d))))"
  shows "wrangle_data pd raw = Inl ValueError"
proof -
  have "\<forall>e \<in> set datalist. date e \<noteq> None" using nice by fastforce
  then obtain ss where ss: "dates_of datalist = Inr ss" using dates_of_ok by blast
  have "ss \<noteq> []" using dates_of_length [OF ss] bad(1) by auto
  then have ne: "sort ss \<noteq> []" by (metis length_0_conv length_sort)
  have iso: "iso_day s' = Some d" if "s' \<in> set ss" "pd s' = Some (Timestamp d)" for s' d
    using dates_of_member [OF ss that(1)] nice that(2) by fastforce
  have ts: "\<exists>d. t = Timestamp d" if "s' \<in> set ss" "pd s' = Some t" for s' t
    using dates_of_member [OF ss that(1)] nice that(2) by fastforce
  have hd_in: "hd (sort ss) \<in> set ss" and last_in: "last (sort ss) \<in> set ss"
    using sort_ends [OF \<open>ss \<noteq> []\<close>] by simp_all
  show ?thesis
  proof (cases "pd (hd (sort ss))")
    case None
    then show ?thesis using dl ss ne by (simp add: wrangle_data_def Let_def parse_date_def)
  next
    case st: (Some startdate)
    obtain a where a: "startdate = Timestamp a" using ts [OF hd_in st] by blast
    show ?thesis
    proof (cases "pd (last (sort ss))")
      case None
      then show ?thesis using dl ss ne st
        by (simp add: wrangle_data_def Let_def parse_date_def)
    next
      case en: (Some enddate)
      obtain b where b: "enddate = Timestamp b" using ts [OF last_in en] by blast
      have ia: "iso_day (hd (sort ss)) = Some a" using iso [OF hd_in] st a by simp
      have ib: "iso_day (last (sort ss)) = Some b" using iso [OF last_in] en b by simp
      have "(\<forall>c. \<exists>x v. col e' c = Some x \<and> to_float x = Inr v)
             \<and> (parsed_date pd e' = Inl ValueError
                \<or> (\<exists>d. parsed_date pd e' = Inr d
                      \<and> d \<in> set (index (DataFrame (map Timestamp [a..b])))))"
        if e': "e' \<in> set datalist" for e'
      proof -
        from nice e' obtain s' where s': "\<forall>c. \<exists>x v. col e' c = Some x \<and> to_float x = Inr v"
          "date e' = Some s'" by blast
        have mem: "s' \<in> set ss" using dates_of_member' [OF ss e'] s'(2) by auto
        show ?thesis
        proof (cases "pd s'")
          case None
          then show ?thesis using s' by (simp add: parsed_date_def parse_date_def)
        next
          case (Some t)
          obtain d where d: "t = Timestamp d" using ts [OF mem Some] by blast
          have id: "iso_day s' = Some d" using iso [OF mem] Some d by simp
          have "a \<le> d" using iso_day_mono [OF ia id sort_bounds(1) [OF mem]] .
          moreover have "d \<le> b" using iso_day_mono [OF id ib sort_bounds(2) [OF mem]] .
          ultimately show ?thesis
            using s' Some d by (simp add: parsed_date_def parse_date_def DataFrame_def)
        qed
      qed
      moreover have "\<exists>e \<in> set datalist. parsed_date pd e = Inl ValueError"
      proof -
        have "parsed_date pd e = Inl ValueError"
          using bad(2,3) by (simp add: parsed_date_def parse_date_def)
        then show ?thesis using bad(1) by blast
      qed
      ultimately have "fill_entries pd datalist (DataFrame (map Timestamp [a..b]))
          = Inl ValueError"
        by (intro fill_entries_ValueError) blast+
      then show ?thesis using dl ss ne st en a b
        by (simp add: wrangle_data_def Let_def parse_date_def date_range_def)
    qed
  qed
qed

text \<open>An entry whose date the parser does not turn into a timestamp stops the call.\<close>

lemma wrangle_data_fails:
  assumes dl: "data raw = Some datalist"
    and bad: "e \<in> set datalist" "date e = Some s" "\<forall>d. pd s \<noteq> Some (Timestamp d)"
  shows "\<exists>err. wrangle_data pd raw = Inl err"
proof (cases "wrangle_data pd raw")
  case (Inl err)
  then show ?thesis by blast
next
  case (Inr t)
  then obtain d where "parsed_date pd e = Inr (Timestamp d)"
    using wrangle_data_table(2) [OF Inr dl] bad(1) by blast
  then have "pd s = Some (Timestamp d)"
    using bad(2) by (simp add: parsed_date_def parse_date_Inr)
  then show ?thesis using bad(3) by simp
qed

lemma refresh_graph_redraws:
  "refresh_graph nb =
     \<lparr>df = df nb, bedcols_value = bedcols_value nb,
      drawn = drawn nb @
        [Plot (if bedcols_value nb = [beds, cases] then [beds, cases, firstDose] else [beds, cases])
           (df nb),
         if bedcols_value nb = [] then Hint else Plot (bedcols_value nb) (df nb)]\<rparr>"
  by (auto simp: refresh_graph_def set_bedcols_value_def beds_graph_def options_def Let_def)

lemma wrangle_data_len: "wrangle_data pd apidata = Inr table \<Longrightarrow> 0 < len apidata"
  by (auto simp: wrangle_data_def len_def split: option.splits)

text \<open>An exception of the wrangler leaves the active table and the drawing as they were.\<close>

lemma callback_failure_keeps_table:
  "wrangle_data pd apidata = Inl err \<Longrightarrow> snd (snd (api_button_callback pd apidata b nb)) = nb"
  by (simp add: api_button_callback_def Let_def)

text \<open>
  The branch for no data is taken for a dictionary without keys only; it ends in the
  \<open>TraitError\<close> of the assignment to \<open>style\<close>, with the icon and the description set and
  the button still enabled.
\<close>

lemma callback_no_keys:
  assumes "len apidata = 0"
  shows "api_button_callback pd apidata b nb =
           (Some TraitError, b\<lparr>icon := ''exclamation-circle'', description := ''Error''\<rparr>, nb)"
  using assms by (simp add: api_button_callback_def)

section \<open>A slot that holds a number is left alone\<close>

lemma fill_entries_append_Inr:
  assumes "fill_entries pd (xs @ ys) fr = Inr fr'"
  obtains fr1 where "fill_entries pd xs fr = Inr fr1" "fill_entries pd ys fr1 = Inr fr'"
  using assms by (auto simp: fill_entries_append split: sum.splits)

text \<open>
  An entry whose date has no number yet in a column is asked for that column: its key is
  read and its value converted.
\<close>

lemma fill_entries_reads:
  assumes "fill_entries pd (xs @ e # zs) fr = Inr fr'" "parsed_date pd e = Inr d"
    and "isna (cell fr d c)" "isna (first_value pd d c xs)"
  shows "\<exists>x v. col e c = Some x \<and> to_float x = Inr v"
proof -
  from assms(1) obtain fr1 where 1: "fill_entries pd xs fr = Inr fr1"
    and 2: "fill_entries pd (e # zs) fr1 = Inr fr'"
    by (rule fill_entries_append_Inr)
  have nan: "isna (cell fr1 d c)" using fill_entries_cell [OF 1, of d c] assms(3,4) by simp
  from 2 obtain d' fr2 where "parsed_date pd e = Inr d'" "fill_columns e d' columns fr1 = Inr fr2"
    by (rule fill_entries_Cons_Inr)
  then have "fill_columns e d columns fr1 = Inr fr2" using assms(2) by simp
  then show ?thesis using fill_columns_key [of e d columns fr1 fr2 c] nan column_in_columns
    by simp
qed

text \<open>
  The inner loop does not look at the entry's value for a slot that already holds a number:
  the result is the same whatever the entry has under that key, or if it has no such key.
\<close>

lemma fill_columns_ignores:
  "\<not> isna (cell fr d c) \<Longrightarrow>
   fill_columns (e\<lparr>col := (col e)(c := y)\<rparr>) d cs fr = fill_columns e d cs fr"
proof (induction cs arbitrary: fr)
  case Nil
  then show ?case by simp
next
  case (Cons c' cs)
  show ?case
  proof (cases "isna (cell fr d c')")
    case True
    then have ne: "c' \<noteq> c" using Cons.prems by auto
    have keep: "\<not> isna (cell (loc_set fr d c' v) d c)" for v
      using Cons.prems ne by (simp add: loc_set_def)
    show ?thesis using True ne Cons.IH [OF keep]
      by (simp add: loc_get_def split: option.splits sum.splits)
  next
    case False
    then show ?thesis using Cons.IH [OF Cons.prems] by (simp add: loc_get_def)
  qed
qed

lemma fill_entries_ignores:
  assumes "parsed_date pd e = Inr d"
    and "\<And>fr1. fill_entries pd us fr = Inr fr1 \<Longrightarrow> \<not> isna (cell fr1 d c)"
  shows "fill_entries pd (us @ e\<lparr>col := (col e)(c := y)\<rparr> # zs) fr
           = fill_entries pd (us @ e # zs) fr"
proof (cases "fill_entries pd us fr")
  case (Inl err)
  then show ?thesis by (simp add: fill_entries_append)
next
  case (Inr fr1)
  have p: "parsed_date pd (e\<lparr>col := (col e)(c := y)\<rparr>) = Inr d"
    using assms(1) by (simp add: parsed_date_def)
  have "fill_columns (e\<lparr>col := (col e)(c := y)\<rparr>) d columns fr1 = fill_columns e d columns fr1"
    using assms(2) [OF Inr] by (rule fill_columns_ignores)
  then show ?thesis using Inr p assms(1) by (simp add: fill_entries_append)
qed

lemma dates_of_cong: "map date es = map date es' \<Longrightarrow> dates_of es = dates_of es'"
proof (induction es arbitrary: es')
  case Nil
  then show ?case by simp
next
  case (Cons e es)
  then obtain e' es'' where es': "es' = e' # es''" "date e = date e'"
    "map date es = map date es''"
    by (cases es') auto
  have "dates_of es = dates_of es''" using es'(3) by (rule Cons.IH)
  then show ?case using es'(1,2) by (simp split: option.splits)
qed

text \<open>
  The call depends on its argument through the dates of the entries and through what the
  loop makes of them.
\<close>

lemma wrangle_data_cong:
  assumes "data raw = Some es" "data raw' = Some es'" "map date es = map date es'"
    and "\<And>idx. fill_entries pd es' (DataFrame idx) = fill_entries pd es (DataFrame idx)"
  shows "wrangle_data pd raw' = wrangle_data pd raw"
  using assms(1,2,4) dates_of_cong [OF assms(3)]
  by (simp add: wrangle_data_def Let_def split: sum.splits)

text \<open>
  Once the first entry of a date has put a number into a column, the call returns the same
  table whatever a later entry of that date has under that key, even when it has no such
  key: the later value is never read.
\<close>

lemma wrangle_data_shadow:
  assumes "wrangle_data pd raw = Inr t" "data raw = Some (xs @ e1 # ys @ e2 # zs)"
    and "parsed_date pd e1 = Inr d" "parsed_date pd e2 = Inr d"
    and "\<forall>e \<in> set xs. parsed_date pd e \<noteq> Inr d" "\<not> isna (float_value e1 c)"
  shows "wrangle_data pd
           (raw\<lparr>data := Some (xs @ e1 # ys @ e2\<lparr>col := (col e2)(c := y)\<rparr> # zs)\<rparr>) = Inr t"
proof -
  let ?l = "xs @ e1 # ys @ e2 # zs"
  let ?e2 = "e2\<lparr>col := (col e2)(c := y)\<rparr>"
  let ?raw = "raw\<lparr>data := Some (xs @ e1 # ys @ ?e2 # zs)\<rparr>"
  have "first_value pd d c (xs @ e1 # ys) = first_value pd d c (e1 # ys)"
    using assms(5) by (intro first_value_skip) simp
  then have fv: "first_value pd d c (xs @ e1 # ys) = float_value e1 c"
    using assms(3,6) by simp
  have kept: "\<not> isna (cell fr' d c)"
    if "fill_entries pd (xs @ e1 # ys) (DataFrame idx) = Inr fr'" for idx fr'
    using fill_entries_cell [OF that, of d c] fv assms(6) by (simp add: DataFrame_def isna_def)
  have same: "fill_entries pd ((xs @ e1 # ys) @ ?e2 # zs) (DataFrame idx)
                = fill_entries pd ((xs @ e1 # ys) @ e2 # zs) (DataFrame idx)" for idx
    using assms(4) kept by (rule fill_entries_ignores)
  have "wrangle_data pd ?raw = wrangle_data pd raw"
  proof (rule wrangle_data_cong)
    show "data raw = Some ?l" by (rule assms(2))
    show "data ?raw = Some (xs @ e1 # ys @ ?e2 # zs)" by simp
    show "map date ?l = map date (xs @ e1 # ys @ ?e2 # zs)" by simp
    show "fill_entries pd (xs @ e1 # ys @ ?e2 # zs) (DataFrame idx)
            = fill_entries pd ?l (DataFrame idx)" for idx
      using same [of idx] by simp
  qed
  then show ?thesis using assms(1) by simp
qed

section \<open>The run on the store\<close>

lemma run_fill_columns_raised:
  "fst (run_fill_columns e d cs a s) = raised (fill_columns e d cs (frames s a))"
  by (induction cs arbitrary: s)
     (auto simp: raised_def frame_loc_set_def split: sum.splits option.splits)

lemma run_fill_columns_frame:
  "fill_columns e d cs (frames s a) = Inr fr \<Longrightarrow>
   frames (snd (run_fill_columns e d cs a s)) a = fr"
  by (induction cs arbitrary: s)
     (auto simp: frame_loc_set_def split: sum.splits option.splits if_splits)

lemma run_fill_columns_rest:
  "dicts (snd (run_fill_columns e d cs a s)) = dicts s
   \<and> date_lists (snd (run_fill_columns e d cs a s)) = date_lists s
   \<and> next_list (snd (run_fill_columns e d cs a s)) = next_list s
   \<and> next_frame (snd (run_fill_columns e d cs a s)) = next_frame s
   \<and> (b \<noteq> a \<longrightarrow> frames (snd (run_fill_columns e d cs a s)) b = frames s b)"
  by (induction cs arbitrary: s)
     (auto simp: frame_loc_set_def split: sum.splits option.splits)

lemma run_fill_entries_raised:
  "fst (run_fill_entries pd es a s) = raised (fill_entries pd es (frames s a))"
proof (induction es arbitrary: s)
  case Nil
  then show ?case by (simp add: raised_def)
next
  case (Cons x es)
  show ?case
  proof (cases "parsed_date pd x")
    case (Inl err)
    then show ?thesis by (simp add: raised_def)
  next
    case (Inr d)
    show ?thesis
    proof (cases "fill_columns x d columns (frames s a)")
      case (Inl err)
      then have "fst (run_fill_columns x d columns a s) = Some err"
        by (simp add: run_fill_columns_raised raised_def)
      then show ?thesis using Inr Inl by (auto simp: raised_def split: prod.splits)
    next
      case fr: (Inr fr)
      obtain s' where s': "run_fill_columns x d columns a s = (None, s')"
        using run_fill_columns_raised [of x d columns a s] fr
        by (cases "run_fill_columns x d columns a s") (simp add: raised_def)
      have "frames s' a = fr" using run_fill_columns_frame [OF fr] s' by simp
      then show ?thesis using Inr fr s' Cons.IH [of s'] by simp
    qed
  qed
qed

lemma run_fill_entries_frame:
  "fill_entries pd es (frames s a) = Inr fr \<Longrightarrow> frames (snd (run_fill_entries pd es a s)) a = fr"
proof (induction es arbitrary: s)
  case Nil
  then show ?case by simp
next
  case (Cons x es)
  from Cons.prems obtain d fr1 where x: "parsed_date pd x = Inr d"
    "fill_columns x d columns (frames s a) = Inr fr1" "fill_entries pd es fr1 = Inr fr"
    by (rule fill_entries_Cons_Inr)
  obtain s' where s': "run_fill_columns x d columns a s = (None, s')"
    using run_fill_columns_raised [of x d columns a s] x(2)
    by (cases "run_fill_columns x d columns a s") (simp add: raised_def)
  have "frames s' a = fr1" using run_fill_columns_frame [OF x(2)] s' by simp
  then show ?case using x s' Cons.IH [of s'] by simp
qed

lemma run_fill_entries_rest:
  "dicts (snd (run_fill_entries pd es a s)) = dicts s
   \<and> date_lists (snd (run_fill_entries pd es a s)) = date_lists s
   \<and> next_list (snd (run_fill_entries pd es a s)) = next_list s
   \<and> next_frame (snd (run_fill_entries pd es a s)) = next_frame s
   \<and> (b \<noteq> a \<longrightarrow> frames (snd (run_fill_entries pd es a s)) b = frames s b)"
proof (induction es arbitrary: s)
  case Nil
  then show ?case by simp
next
  case (Cons x es)
  show ?case
  proof (cases "parsed_date pd x")
    case (Inl err)
    then show ?thesis by simp
  next
    case (Inr d)
    obtain r s' where s': "run_fill_columns x d columns a s = (r, s')"
      by (cases "run_fill_columns x d columns a s")
    have rest: "dicts s' = dicts s \<and> date_lists s' = date_lists s \<and> next_list s' = next_list s
        \<and> next_frame s' = next_frame s \<and> (b \<noteq> a \<longrightarrow> frames s' b = frames s b)"
      using run_fill_columns_rest [of x d columns a s b] s' by simp
    show ?thesis
    proof (cases r)
      case None
      then show ?thesis using Inr s' rest Cons.IH [of s'] by simp
    next
      case (Some err)
      then show ?thesis using Inr s' rest by simp
    qed
  qed
qed

text \<open>The run on the store computes what the function on values computes.\<close>

lemma run_wrangle_data_refines:
  "case wrangle_data pd (dicts s a) of
     Inl err \<Rightarrow> fst (run_wrangle_data pd a s) = Inl err
   | Inr t \<Rightarrow> fst (run_wrangle_data pd a s) = Inr (next_frame s)
             \<and> frames (snd (run_wrangle_data pd a s)) (next_frame s) = t"
proof (cases "data (dicts s a)")
  case None
  then show ?thesis by (simp add: wrangle_data_def run_wrangle_data_def)
next
  case dl: (Some datalist)
  show ?thesis
  proof (cases "dates_of datalist")
    case (Inl err)
    then show ?thesis using dl by (simp add: wrangle_data_def run_wrangle_data_def)
  next
    case ss: (Inr ss)
    define s2 where "s2 = list_sort (next_list s) (snd (new_list ss s))"
    have l2: "date_lists s2 (next_list s) = sort ss" and f2: "next_frame s2 = next_frame s"
      by (simp_all add: s2_def list_sort_def new_list_def)
    show ?thesis
    proof (cases "sort ss = []")
      case True
      then show ?thesis using dl ss
        by (simp add: wrangle_data_def run_wrangle_data_def Let_def list_sort_def new_list_def)
    next
      case ne: False
      show ?thesis
      proof (cases "parse_date pd (hd (sort ss))")
        case (Inl err)
        then show ?thesis using dl ss ne
          by (simp add: wrangle_data_def run_wrangle_data_def Let_def list_sort_def new_list_def)
      next
        case st: (Inr startdate)
        show ?thesis
        proof (cases "parse_date pd (last (sort ss))")
          case (Inl err)
          then show ?thesis using dl ss ne st
            by (simp add: wrangle_data_def run_wrangle_data_def Let_def list_sort_def
                new_list_def)
        next
          case en: (Inr enddate)
          show ?thesis
          proof (cases "date_range startdate enddate")
            case (Inl err)
            then show ?thesis using dl ss ne st en
              by (simp add: wrangle_data_def run_wrangle_data_def Let_def list_sort_def
                  new_list_def)
          next
            case idx: (Inr idx)
            define fr0 where "fr0 = DataFrame idx"
            define s3 where "s3 = snd (new_frame fr0 s2)"
            have f3: "frames s3 (next_frame s) = fr0"
              by (simp add: s3_def new_frame_def f2)
            have run: "run_wrangle_data pd a s =
                (case run_fill_entries pd datalist (next_frame s) s3 of
                   (Some err, s4) \<Rightarrow> (Inl err, s4)
                 | (None, s4) \<Rightarrow> (Inr (next_frame s), frame_fillna (next_frame s) (Finite 0) s4))"
              using dl ss ne st en idx
              by (simp add: run_wrangle_data_def Let_def new_list_def list_sort_def new_frame_def
                  s3_def s2_def fr0_def)
            have pure: "wrangle_data pd (dicts s a) =
                (case fill_entries pd datalist fr0 of Inl err \<Rightarrow> Inl err | Inr fr \<Rightarrow> Inr (fillna (Finite 0) fr))"
              using dl ss ne st en idx by (simp add: wrangle_data_def Let_def fr0_def)
            obtain r s4 where r: "run_fill_entries pd datalist (next_frame s) s3 = (r, s4)"
              by (cases "run_fill_entries pd datalist (next_frame s) s3")
            have r_eq: "r = raised (fill_entries pd datalist fr0)"
              using run_fill_entries_raised [of pd datalist "next_frame s" s3] r f3 by simp
            show ?thesis
            proof (cases "fill_entries pd datalist fr0")
              case (Inl err)
              then show ?thesis using run pure r r_eq by (simp add: raised_def)
            next
              case (Inr fr)
              have "frames s4 (next_frame s) = fr"
                using run_fill_entries_frame [of pd datalist s3 "next_frame s" fr] Inr f3 r by simp
              then show ?thesis using run pure r r_eq Inr
                by (simp add: raised_def frame_fillna_def)
            qed
          qed
        qed
      qed
    qed
  qed
qed

text \<open>The run changes nothing that was in the store before it.\<close>

lemma run_wrangle_data_preserves:
  "dicts (snd (run_wrangle_data pd a s)) = dicts s
   \<and> (l < next_list s \<longrightarrow> date_lists (snd (run_wrangle_data pd a s)) l = date_lists s l)
   \<and> (f < next_frame s \<longrightarrow> frames (snd (run_wrangle_data pd a s)) f = frames s f)
   \<and> next_list s \<le> next_list (snd (run_wrangle_data pd a s))
   \<and> next_frame s \<le> next_frame (snd (run_wrangle_data pd a s))
   \<and> (fst (run_wrangle_data pd a s) = Inr f' \<longrightarrow> f' < next_frame (snd (run_wrangle_data pd a s)))"
proof (cases "data (dicts s a)")
  case None
  then show ?thesis by (simp add: run_wrangle_data_def)
next
  case dl: (Some datalist)
  show ?thesis
  proof (cases "dates_of datalist")
    case (Inl err)
    then show ?thesis using dl by (simp add: run_wrangle_data_def)
  next
    case ss: (Inr ss)
    define s2 where "s2 = list_sort (next_list s) (snd (new_list ss s))"
    have s2: "dicts s2 = dicts s" "l < next_list s \<longrightarrow> date_lists s2 l = date_lists s l"
      "frames s2 = frames s" "next_list s2 = Suc (next_list s)" "next_frame s2 = next_frame s"
      "date_lists s2 (next_list s) = sort ss"
      by (simp_all add: s2_def list_sort_def new_list_def)
    show ?thesis
    proof (cases "sort ss = []")
      case True
      then show ?thesis using dl ss
        by (simp add: run_wrangle_data_def Let_def list_sort_def new_list_def)
    next
      case ne: False
      show ?thesis
      proof (cases "parse_date pd (hd (sort ss))")
        case (Inl err)
        then show ?thesis using dl ss ne
          by (simp add: run_wrangle_data_def Let_def list_sort_def new_list_def)
      next
        case st: (Inr startdate)
        show ?thesis
        proof (cases "parse_date pd (last (sort ss))")
          case (Inl err)
          then show ?thesis using dl ss ne st
            by (simp add: run_wrangle_data_def Let_def list_sort_def new_list_def)
        next
          case en: (Inr enddate)
          show ?thesis
          proof (cases "date_range startdate enddate")
            case (Inl err)
            then show ?thesis using dl ss ne st en
              by (simp add: run_wrangle_data_def Let_def list_sort_def new_list_def)
          next
            case idx: (Inr idx)
            define fr0 where "fr0 = DataFrame idx"
            define s3 where "s3 = snd (new_frame fr0 s2)"
            have s3: "dicts s3 = dicts s" "l < next_list s \<longrightarrow> date_lists s3 l = date_lists s l"
              "f < next_frame s \<longrightarrow> frames s3 f = frames s f"
              "next_list s3 = Suc (next_list s)" "next_frame s3 = Suc (next_frame s)"
              using s2 by (simp_all add: s3_def new_frame_def)
            have run: "run_wrangle_data pd a s =
                (case run_fill_entries pd datalist (next_frame s) s3 of
                   (Some err, s4) \<Rightarrow> (Inl err, s4)
                 | (None, s4) \<Rightarrow> (Inr (next_frame s), frame_fillna (next_frame s) (Finite 0) s4))"
              using dl ss ne st en idx
              by (simp add: run_wrangle_data_def Let_def new_list_def list_sort_def new_frame_def
                  s3_def s2_def fr0_def)
            obtain r s4 where r: "run_fill_entries pd datalist (next_frame s) s3 = (r, s4)"
              by (cases "run_fill_entries pd datalist (next_frame s) s3")
            have s4: "dicts s4 = dicts s3 \<and> date_lists s4 = date_lists s3 \<and> next_list s4 = next_list s3
                \<and> next_frame s4 = next_frame s3
                \<and> (f \<noteq> next_frame s \<longrightarrow> frames s4 f = frames s3 f)"
              using run_fill_entries_rest [of pd datalist "next_frame s" s3 f] r by simp
            show ?thesis
            proof (cases r)
              case None
              then show ?thesis using run r s3 s4 by (simp add: frame_fillna_def)
            next
              case (Some err)
              then show ?thesis using run r s3 s4 by simp
            qed
          qed
        qed
      qed
    qed
  qed
qed

section \<open>The claims\<close>

text \<open>
  C1 (amended). For every non-empty record list in which each entry has its five keys, with
  values that are \<open>None\<close> or numbers \<open>float()\<close> converts, and a zero-padded date string
  \<open>YYYY-MM-DD\<close> that the parser reads as the day it spells, \<open>wrangle_data\<close> returns a
  table whose index is exactly the run of calendar days from the earliest to the latest
  date present, inclusive and without gaps; its row count is the day span plus one. This
  holds for every parser.
\<close>

theorem C1_daily_range:
  assumes "data raw = Some datalist" "datalist \<noteq> []"
    and "\<forall>e \<in> set datalist. \<exists>s d. date e = Some s \<and> iso_day s = Some d
           \<and> pd s = Some (Timestamp d)
           \<and> (\<forall>c. \<exists>x v. col e c = Some x \<and> to_float x = Inr v)"
  shows "\<exists>t. wrangle_data pd raw = Inr t
           \<and> index t = map Timestamp [earliest pd datalist..latest pd datalist]
           \<and> earliest pd datalist \<le> latest pd datalist
           \<and> length (index t) = nat (latest pd datalist - earliest pd datalist) + 1"
proof -
  obtain t where t: "wrangle_data pd raw = Inr t"
    using wrangle_data_ok [OF assms] by blast
  have idx: "index t = map Timestamp [earliest pd datalist..latest pd datalist]"
    and le: "earliest pd datalist \<le> latest pd datalist"
    using wrangle_data_table(3,4) [OF t assms(1)] by simp_all
  have "length (index t) = nat (latest pd datalist - earliest pd datalist) + 1"
    using le by (simp add: idx)
  then show ?thesis using t idx le by blast
qed

theorem C1_daily_range_witness:
  "\<exists>t. wrangle_data to_datetime example_input = Inr t
     \<and> index t = [Timestamp 737791, Timestamp 737792, Timestamp 737793]
     \<and> length (index t) = 3"
proof -
  let ?l = "[make_entry ''2021-01-01'' (JInt 10) (JInt 100) Null (JInt 0),
             make_entry ''2021-01-03'' (JInt 12) (JInt 90) (JInt 500) (JInt 0)]"
  have 1: "data example_input = Some ?l" by (simp add: example_input_def)
  have 2: "?l \<noteq> []" by simp
  have k: "\<forall>c. \<exists>x v. col (make_entry s (JInt 10) (JInt 100) Null (JInt 0)) c = Some x
              \<and> to_float x = Inr v"
    "\<forall>c. \<exists>x v. col (make_entry s (JInt 12) (JInt 90) (JInt 500) (JInt 0)) c = Some x
              \<and> to_float x = Inr v" for s
    by (rule make_entry_floats; simp add: to_float_Null to_float_JInt)+
  have 3: "\<forall>e \<in> set ?l. \<exists>s d. date e = Some s \<and> iso_day s = Some d
           \<and> to_datetime s = Some (Timestamp d)
           \<and> (\<forall>c. \<exists>x v. col e c = Some x \<and> to_float x = Inr v)"
    using k iso_day_2021_01_01 iso_day_2021_01_03 to_datetime_2021_01_01 to_datetime_2021_01_03
    by (simp add: make_entry_date)
  have lo: "earliest to_datetime ?l = 737791" and hi: "latest to_datetime ?l = 737793"
    by (simp_all add: earliest_def latest_def example_dates)
  show ?thesis using C1_daily_range [OF 1 2 3] unfolding lo hi by (simp add: upto_rec1)
qed

text \<open>
  C1, counterexample to the specification's wording, on three inputs that are not empty and
  whose date strings parse. The source sorts the date strings, not the dates: in
  \<open>unpadded_input\<close> the string \<open>2021-10-01\<close> sorts before \<open>2021-9-01\<close>, the index runs
  from October to September and is empty, and the first \<open>.loc\<close> lookup raises \<open>KeyError\<close>.
  The source reads every column key: the entry of \<open>missing_key_input\<close> has no
  \<open>'beds'\<close>, and \<open>entry[column]\<close> raises \<open>KeyError\<close>. And the source converts every
  number: the entry of \<open>overflow_input\<close> has \<open>10 ** 400\<close> for \<open>beds\<close>, and \<open>float()\<close>
  raises \<open>OverflowError\<close>. None of the calls produces a table.
\<close>

theorem C1_counterexample:
  "to_datetime ''2021-10-01'' = Some (Timestamp (ymd2ord 2021 10 1))
   \<and> to_datetime ''2021-9-01'' = Some (Timestamp (ymd2ord 2021 9 1))
   \<and> wrangle_data to_datetime unpadded_input = Inl KeyError
   \<and> to_datetime ''2021-01-01'' = Some (Timestamp (ymd2ord 2021 1 1))
   \<and> wrangle_data to_datetime missing_key_input = Inl KeyError
   \<and> wrangle_data to_datetime overflow_input = Inl OverflowError"
  by (simp add: wrangle_data_def unpadded_input_def missing_key_input_def overflow_input_def
      frame_defs to_datetime_2021_10_01 to_datetime_2021_9_01 to_datetime_2021_01_01
      parse_2021_10_01 parse_2021_9_01 parse_2021_01_01 ymd_2021)

text \<open>
  C2 (amended). In every table \<open>wrangle_data\<close> returns, every row has a number in each of
  the four columns: no cell is NaN. A day of the index that no entry carries holds 0.0 in
  every column, and so does a cell whose value in the first entry of its day is
  \<open>None\<close>.
\<close>

theorem C2_no_missing_cells:
  assumes "wrangle_data pd raw = Inr t" "data raw = Some datalist" "d \<in> set (index t)"
  shows "\<not> isna (cell t d c)
       \<and> ((\<forall>e \<in> set datalist. parsed_date pd e \<noteq> Inr d) \<longrightarrow> cell t d c = Finite 0)
       \<and> (\<forall>e. first_entry pd d datalist = Some e \<and> col e c = Some Null
              \<longrightarrow> cell t d c = Finite 0)"
proof -
  have cell: "cell t d c =
      (if isna (first_value pd d c datalist) then Finite 0 else first_value pd d c datalist)"
    using wrangle_data_table(5) [OF assms(1,2), of d c] assms(3) by simp
  have "cell t d c = Finite 0" if "\<forall>e \<in> set datalist. parsed_date pd e \<noteq> Inr d"
  proof -
    have "first_entry pd d datalist = None" using that by (simp add: first_entry_None)
    then have "first_value pd d c datalist = NaN" by (rule first_value_None)
    then show ?thesis using cell by (simp add: isna_def)
  qed
  moreover have "cell t d c = Finite 0"
    if "first_entry pd d datalist = Some e" "col e c = Some Null" for e
  proof -
    have v: "float_value e c = Finite 0" using that(2) by (simp add: float_value_def to_float_Null)
    then have "first_value pd d c datalist = Finite 0"
      using first_value_Some [OF that(1), of c] by (simp add: isna_def)
    then show ?thesis using cell by (simp add: isna_def)
  qed
  moreover have "\<not> isna (cell t d c)" using cell by (simp add: isna_def)
  ultimately show ?thesis by blast
qed

theorem C2_no_missing_cells_witness:
  "\<exists>t. wrangle_data to_datetime example_input = Inr t
     \<and> \<not> isna (cell t (Timestamp 737793) beds)
     \<and> cell t (Timestamp 737792) beds = Finite 0
     \<and> cell t (Timestamp 737791) firstDose = Finite 0"
proof -
  let ?e1 = "make_entry ''2021-01-01'' (JInt 10) (JInt 100) Null (JInt 0)"
  let ?e2 = "make_entry ''2021-01-03'' (JInt 12) (JInt 90) (JInt 500) (JInt 0)"
  obtain t where t: "wrangle_data to_datetime example_input = Inr t"
    using example_table by blast
  have dl: "data example_input = Some [?e1, ?e2]" by (simp add: example_input_def)
  have idx: "index t = [Timestamp 737791, Timestamp 737792, Timestamp 737793]"
    using t by (rule example_index)
  have p: "parsed_date to_datetime ?e1 = Inr (Timestamp 737791)"
    "parsed_date to_datetime ?e2 = Inr (Timestamp 737793)"
    by (simp_all add: parsed_date_def make_entry_date parse_2021_01_01 parse_2021_01_03)
  have a: "\<not> isna (cell t (Timestamp 737793) beds)"
    using C2_no_missing_cells [OF t dl, of "Timestamp 737793" beds] idx by simp
  have b: "cell t (Timestamp 737792) beds = Finite 0"
    using C2_no_missing_cells [OF t dl, of "Timestamp 737792" beds] idx p by simp
  have "first_entry to_datetime (Timestamp 737791) [?e1, ?e2] = Some ?e1"
    "col ?e1 firstDose = Some Null"
    using p by (simp_all add: first_entry_def make_entry_def)
  then have c: "cell t (Timestamp 737791) firstDose = Finite 0"
    using C2_no_missing_cells [OF t dl, of "Timestamp 737791" firstDose] idx by simp
  show ?thesis using t a b c by blast
qed

text \<open>
  C2, counterexample to the specification's wording, for a value that is missing rather
  than \<open>None\<close>: the only entry of
  \<open>missing_key_input\<close> has no \<open>'beds'\<close> key, and \<open>entry[column]\<close> raises \<open>KeyError\<close>
  instead of yielding 0.0.
\<close>

theorem C2_counterexample:
  "wrangle_data to_datetime missing_key_input = Inl KeyError"
  by (simp add: wrangle_data_def missing_key_input_def frame_defs parse_2021_01_01)

text \<open>
  C3 (amended). When two entries of the list carry the same date, and the earlier of them
  is the first entry of the list with that date, the loop reads the earlier entry's value
  in every column. A column in which that value is a number or \<open>None\<close> holds it in the
  table (\<open>None\<close> as 0.0), and the later entry's value for that column is not written:
  the call returns the same table whatever the later entry has under that key. A column in
  which the earlier entry's value is NaN is not settled by it: when the later entry is the
  next one of that date, the loop reads the later entry's value too, and the table holds
  it unless it is NaN as well. The witness runs two entries in both orders, and the two
  entries of \<open>nan_first_input\<close>.
\<close>

theorem C3_first_record_wins:
  assumes "wrangle_data pd raw = Inr t" "data raw = Some (xs @ e1 # ys @ e2 # zs)"
    and "parsed_date pd e1 = Inr d" "parsed_date pd e2 = Inr d"
    and "\<forall>e \<in> set xs. parsed_date pd e \<noteq> Inr d"
  shows "\<exists>x v. col e1 c = Some x \<and> to_float x = Inr v
           \<and> (\<not> isna v \<longrightarrow>
                cell t d c = v
                \<and> (\<forall>y. wrangle_data pd
                         (raw\<lparr>data := Some (xs @ e1 # ys @ e2\<lparr>col := (col e2)(c := y)\<rparr> # zs)\<rparr>)
                       = Inr t))
           \<and> (isna v \<and> (\<forall>e \<in> set ys. parsed_date pd e \<noteq> Inr d) \<longrightarrow>
                (\<exists>x2 v2. col e2 c = Some x2 \<and> to_float x2 = Inr v2
                   \<and> (\<not> isna v2 \<longrightarrow> cell t d c = v2)))"
proof -
  let ?l = "xs @ e1 # ys @ e2 # zs"
  from assms(1) obtain datalist idx fr where w: "data raw = Some datalist"
    "fill_entries pd datalist (DataFrame idx) = Inr fr"
    by (rule wrangle_data_Inr)
  have run: "fill_entries pd ?l (DataFrame idx) = Inr fr" using w assms(2) by simp
  have nan0: "isna (cell (DataFrame idx) d c)" by (simp add: DataFrame_def isna_def)
  have first: "first_entry pd d ?l = Some e1"
    using assms(5,3) by (rule first_entry_append)
  obtain x v where x: "col e1 c = Some x" "to_float x = Inr v"
    using wrangle_data_table(6) [OF assms(1,2) first, of c] by blast
  have v: "float_value e1 c = v" using x by (simp add: float_value_def)
  have d_in: "d \<in> set (index t)"
    using wrangle_data_covers [OF assms(1,2) _ assms(3)] by simp
  have cell: "cell t d c =
      (if isna (first_value pd d c ?l) then Finite 0 else first_value pd d c ?l)"
    using wrangle_data_table(5) [OF assms(1,2), of d c] d_in by simp
  have skip_xs: "first_value pd d c (xs @ us) = first_value pd d c us" for us
    using assms(5) by (intro first_value_skip) simp
  have 1: "cell t d c = v" if "\<not> isna v"
    using cell that v assms(3) skip_xs [of "e1 # ys @ e2 # zs"] by simp
  have same_table: "wrangle_data pd
              (raw\<lparr>data := Some (xs @ e1 # ys @ e2\<lparr>col := (col e2)(c := y)\<rparr> # zs)\<rparr>) = Inr t"
    if "\<not> isna v" for y
    using assms that v by (intro wrangle_data_shadow) simp_all
  have 2: "\<exists>x2 v2. col e2 c = Some x2 \<and> to_float x2 = Inr v2
             \<and> (\<not> isna v2 \<longrightarrow> cell t d c = v2)"
    if nv: "isna v" and ys: "\<forall>e \<in> set ys. parsed_date pd e \<noteq> Inr d"
  proof -
    have skip_ys: "first_value pd d c (ys @ us) = first_value pd d c us" for us
      using ys by (intro first_value_skip) simp
    have pre: "first_value pd d c (xs @ e1 # ys) = NaN"
      using skip_xs [of "e1 # ys"] skip_ys [of "[]"] nv v by (simp add: isna_def)
    have "fill_entries pd ((xs @ e1 # ys) @ e2 # zs) (DataFrame idx) = Inr fr"
      using run by simp
    then obtain x2 v2 where x2: "col e2 c = Some x2" "to_float x2 = Inr v2"
      using fill_entries_reads [of pd "xs @ e1 # ys" e2 zs "DataFrame idx" fr d c]
        assms(4) nan0 pre by (auto simp: isna_def)
    have v2: "float_value e2 c = v2" using x2 by (simp add: float_value_def)
    have "first_value pd d c ?l = v2" if "\<not> isna v2"
      using skip_xs [of "e1 # ys @ e2 # zs"] skip_ys [of "e2 # zs"] nv v v2 that assms(4)
      by simp
    then have "cell t d c = v2" if "\<not> isna v2" using cell that by simp
    then show ?thesis using x2 by blast
  qed
  show ?thesis using x 1 same_table 2 by blast
qed

theorem C3_first_record_wins_witness:
  "(\<exists>t. wrangle_data to_datetime duplicate_input = Inr t
       \<and> cell t (Timestamp 737791) cases = Finite 1)
   \<and> (\<exists>t. wrangle_data to_datetime swapped_input = Inr t
       \<and> cell t (Timestamp 737791) cases = Finite 8)
   \<and> (\<exists>t. wrangle_data to_datetime nan_first_input = Inr t
       \<and> cell t (Timestamp 737791) beds = Finite 5
       \<and> cell t (Timestamp 737791) cases = Finite 8)"
proof -
  let ?a = "make_entry ''2021-01-01'' Null (JInt 1) (JInt 2) (JInt 3)"
  let ?b = "make_entry ''2021-01-01'' (JInt 7) (JInt 8) (JInt 9) (JInt 10)"
  let ?n = "make_entry ''2021-01-01'' (JInt 5) (JFloat NaN) (JInt 2) (JInt 3)"
  let ?d = "Timestamp 737791"
  have p: "parsed_date to_datetime ?a = Inr ?d" "parsed_date to_datetime ?b = Inr ?d"
    "parsed_date to_datetime ?n = Inr ?d"
    by (simp_all add: parsed_date_def make_entry_date parse_2021_01_01)
  have ca: "col ?a cases = Some (JInt 1)" and cb: "col ?b cases = Some (JInt 8)"
    and cn: "col ?n cases = Some (JFloat NaN)" and bn: "col ?n beds = Some (JInt 5)"
    by (simp_all add: make_entry_def)
  obtain t where t: "wrangle_data to_datetime duplicate_input = Inr t"
    using duplicate_table by blast
  have dl: "data duplicate_input = Some ([] @ ?a # [] @ ?b # [])"
    by (simp add: duplicate_input_def)
  have 1: "cell t ?d cases = Finite 1"
    using C3_first_record_wins [OF t dl p(1) p(2), of cases] ca
    by (auto simp: to_float_JInt isna_def)
  obtain u where u: "wrangle_data to_datetime swapped_input = Inr u"
    using swapped_table by blast
  have dl': "data swapped_input = Some ([] @ ?b # [] @ ?a # [])"
    by (simp add: swapped_input_def)
  have 2: "cell u ?d cases = Finite 8"
    using C3_first_record_wins [OF u dl' p(2) p(1), of cases] cb
    by (auto simp: to_float_JInt isna_def)
  obtain w where w: "wrangle_data to_datetime nan_first_input = Inr w"
    using nan_first_table by blast
  have dl'': "data nan_first_input = Some ([] @ ?n # [] @ ?b # [])"
    by (simp add: nan_first_input_def)
  have 3: "cell w ?d beds = Finite 5"
    using C3_first_record_wins [OF w dl'' p(3) p(2), of beds] bn
    by (auto simp: to_float_JInt isna_def)
  have 4: "cell w ?d cases = Finite 8"
    using C3_first_record_wins [OF w dl'' p(3) p(2), of cases] cn cb
    by (auto simp: to_float_JInt to_float_JFloat isna_def)
  show ?thesis using t 1 u 2 w 3 4 by blast
qed

text \<open>
  C3, counterexample to the specification's wording. Both entries of \<open>nan_first_input\<close>
  are dated 2021-01-01; the first has NaN for \<open>cases\<close>, which \<open>json.load\<close> accepts and
  which is not \<open>None\<close>, the second has 8. The first entry writes NaN, the slot still
  tests as missing, and the later entry's 8 is written into the table.
\<close>

theorem C3_counterexample:
  "result_loc (wrangle_data to_datetime nan_first_input) (Timestamp (ymd2ord 2021 1 1)) cases
     = Inr (Finite 8)"
  by (simp add: result_loc_def nan_first_table ymd_2021 loc_get_def fillna_def isna_def)

text \<open>
  C4. On an empty record list \<open>wrangle_data\<close> fails: \<open>dates[0]\<close> raises \<open>IndexError\<close>,
  which is the notebook's empty-input error, since nothing but the empty list raises it.
  No table \<open>wrangle_data\<close> returns has an empty index.
\<close>

theorem C4_empty_input:
  "(data raw = Some [] \<longrightarrow> wrangle_data pd raw = Inl IndexError)
   \<and> (wrangle_data pd raw = Inl IndexError \<longrightarrow> data raw = Some [])
   \<and> (\<forall>t. wrangle_data pd raw = Inr t \<longrightarrow> index t \<noteq> [])"
proof (intro conjI impI allI)
  assume "data raw = Some []"
  then show "wrangle_data pd raw = Inl IndexError" by (simp add: wrangle_data_def)
next
  assume "wrangle_data pd raw = Inl IndexError"
  then show "data raw = Some []" by (rule wrangle_data_IndexError)
next
  fix t assume t: "wrangle_data pd raw = Inr t"
  then obtain datalist where dl: "data raw = Some datalist"
    by (auto simp: wrangle_data_def split: option.splits)
  show "index t \<noteq> []"
    using wrangle_data_table(3,4) [OF t dl] by auto
qed

theorem C4_empty_input_witness:
  "wrangle_data to_datetime empty_input = Inl IndexError"
proof -
  have "data empty_input = Some []" by (simp add: empty_input_def)
  then show ?thesis using C4_empty_input [of empty_input to_datetime] by simp
qed

text \<open>
  C5 (amended). If the date string of any entry is one the parser does not turn into a
  timestamp, \<open>wrangle_data\<close> returns no table: the entry is never dropped. The exception
  is the parser's \<open>ValueError\<close> whenever the parser raises on that string, every entry
  has its five keys with values that \<open>float()\<close> converts, and every date string is
  either refused by the parser or zero-padded and read as the day it spells. This holds
  for every parser.
\<close>

theorem C5_malformed_date:
  assumes "data raw = Some datalist" "e \<in> set datalist" "date e = Some s"
    and "\<forall>d. pd s \<noteq> Some (Timestamp d)"
  shows "(\<exists>err. wrangle_data pd raw = Inl err)
       \<and> (pd s = None
           \<and> (\<forall>e' \<in> set datalist. (\<forall>c. \<exists>x v. col e' c = Some x \<and> to_float x = Inr v)
                \<and> (\<exists>s'. date e' = Some s'
                      \<and> (pd s' = None
                         \<or> (\<exists>d. iso_day s' = Some d \<and> pd s' = Some (Timestamp d)))))
           \<longrightarrow> wrangle_data pd raw = Inl ValueError)"
  using wrangle_data_fails [where pd = pd and s = s, OF assms]
    wrangle_data_ValueError [where pd = pd and s = s, OF assms(1,2,3)]
  by blast

theorem C5_malformed_date_witness:
  "wrangle_data to_datetime bad_date_input = Inl ValueError"
proof -
  let ?a = "make_entry ''2021-01-01'' (JInt 1) (JInt 2) (JInt 3) (JInt 4)"
  let ?b = "make_entry ''2021-01-02x'' (JInt 5) (JInt 6) (JInt 7) (JInt 8)"
  let ?c = "make_entry ''2021-01-03'' (JInt 9) (JInt 10) (JInt 11) (JInt 12)"
  have 1: "data bad_date_input = Some [?a, ?b, ?c]" by (simp add: bad_date_input_def)
  have 2: "?b \<in> set [?a, ?b, ?c]" by simp
  have 3: "date ?b = Some ''2021-01-02x''" by (simp add: make_entry_date)
  have 4: "\<forall>d. to_datetime ''2021-01-02x'' \<noteq> Some (Timestamp d)"
    by (simp add: to_datetime_bad)
  have k: "\<forall>c. \<exists>x v. col ?a c = Some x \<and> to_float x = Inr v"
    "\<forall>c. \<exists>x v. col ?b c = Some x \<and> to_float x = Inr v"
    "\<forall>c. \<exists>x v. col ?c c = Some x \<and> to_float x = Inr v"
    by (rule make_entry_floats; simp add: to_float_JInt)+
  have nice: "\<forall>e' \<in> set [?a, ?b, ?c].
        (\<forall>c. \<exists>x v. col e' c = Some x \<and> to_float x = Inr v)
        \<and> (\<exists>s'. date e' = Some s'
              \<and> (to_datetime s' = None
                 \<or> (\<exists>d. iso_day s' = Some d \<and> to_datetime s' = Some (Timestamp d))))"
    using k iso_day_2021_01_01 iso_day_2021_01_03 to_datetime_2021_01_01 to_datetime_2021_01_03
      to_datetime_bad
    by (simp add: make_entry_date)
  show ?thesis
    using C5_malformed_date [where pd = to_datetime and s = "''2021-01-02x''", OF 1 2 3 4]
      nice to_datetime_bad
    by blast
qed

text \<open>
  C5, counterexample to the specification's wording, where another exception comes first.
  The first entry of \<open>bad_date_missing_key_input\<close> has no \<open>'beds'\<close> key, and the loop
  raises \<open>KeyError\<close> before it reaches the entry whose date does not parse; the first
  entry of \<open>bad_date_overflow_input\<close> has \<open>10 ** 400\<close> for \<open>beds\<close>, and the loop raises
  \<open>OverflowError\<close> there.
\<close>

theorem C5_counterexample:
  "to_datetime ''2021-01-02x'' = None
   \<and> wrangle_data to_datetime bad_date_missing_key_input = Inl KeyError
   \<and> wrangle_data to_datetime bad_date_overflow_input = Inl OverflowError"
  by (simp add: to_datetime_bad parse_bad wrangle_data_def bad_date_missing_key_input_def
      bad_date_overflow_input_def frame_defs parse_2021_01_01 parse_2021_01_03)

text \<open>
  C6. A call of \<open>wrangle_data\<close> changes no object that existed before it: every dictionary,
  the argument among them, every list and every frame allocated earlier, the active table
  among them, is after the call what it was before. What the call returns is what the
  function \<open>wrangle_data\<close> on values gives for the argument, so it depends on nothing else;
  and a second call on the same argument raises the same exception or builds a second
  frame that is identical to the first and leaves the first as it was.
\<close>

theorem C6_pure_and_deterministic:
  assumes "run_wrangle_data pd a s = (r, s')" "run_wrangle_data pd a s' = (r2, s2)"
  shows "dicts s' = dicts s
       \<and> (\<forall>l < next_list s. date_lists s' l = date_lists s l)
       \<and> (\<forall>f < next_frame s. frames s' f = frames s f)
       \<and> (case r of
             Inl err \<Rightarrow> wrangle_data pd (dicts s a) = Inl err \<and> r2 = Inl err
           | Inr f \<Rightarrow> wrangle_data pd (dicts s a) = Inr (frames s' f)
                     \<and> (\<exists>f2. r2 = Inr f2 \<and> f2 \<noteq> f \<and> frames s2 f2 = frames s' f
                              \<and> frames s2 f = frames s' f))"
proof -
  have d: "dicts s' = dicts s"
    using run_wrangle_data_preserves [of pd a s] assms(1) by simp
  have l: "\<forall>l < next_list s. date_lists s' l = date_lists s l"
    using run_wrangle_data_preserves [of pd a s] assms(1) by simp
  have f: "\<forall>f < next_frame s. frames s' f = frames s f"
    using run_wrangle_data_preserves [of pd a s] assms(1) by simp
  have same: "wrangle_data pd (dicts s' a) = wrangle_data pd (dicts s a)" using d by simp
  have "case r of
             Inl err \<Rightarrow> wrangle_data pd (dicts s a) = Inl err \<and> r2 = Inl err
           | Inr f \<Rightarrow> wrangle_data pd (dicts s a) = Inr (frames s' f)
                     \<and> (\<exists>f2. r2 = Inr f2 \<and> f2 \<noteq> f \<and> frames s2 f2 = frames s' f
                              \<and> frames s2 f = frames s' f)"
  proof (cases "wrangle_data pd (dicts s a)")
    case (Inl err)
    then show ?thesis
      using run_wrangle_data_refines [where pd = pd and s = s and a = a]
        run_wrangle_data_refines [where pd = pd and s = s' and a = a] same assms
      by simp
  next
    case (Inr t)
    have 1: "r = Inr (next_frame s)" "frames s' (next_frame s) = t"
      using run_wrangle_data_refines [where pd = pd and s = s and a = a] Inr assms(1)
      by simp_all
    have 2: "r2 = Inr (next_frame s')" "frames s2 (next_frame s') = t"
      using run_wrangle_data_refines [where pd = pd and s = s' and a = a] Inr same assms(2)
      by simp_all
    have lt: "next_frame s < next_frame s'"
      using run_wrangle_data_preserves
              [where pd = pd and a = a and s = s and f' = "next_frame s"]
        assms(1) 1 by simp
    have keep: "frames s2 (next_frame s) = frames s' (next_frame s)"
      using run_wrangle_data_preserves
              [where pd = pd and a = a and s = s' and f = "next_frame s"]
        assms(2) lt by simp
    show ?thesis using Inr 1 2 lt keep by simp
  qed
  then show ?thesis using d l f by blast
qed

theorem C6_pure_and_deterministic_witness:
  "\<exists>f f2 s' s2. run_wrangle_data to_datetime 0 store0 = (Inr f, s')
     \<and> run_wrangle_data to_datetime 0 s' = (Inr f2, s2)
     \<and> f2 \<noteq> f \<and> frames s2 f2 = frames s' f \<and> frames s2 f = frames s' f
     \<and> dicts s' 0 = duplicate_input
     \<and> frames s' 0 = DataFrame [Timestamp 1, Timestamp 2, Timestamp 3]
     \<and> wrangle_data to_datetime duplicate_input = Inr (frames s' f)"
proof -
  obtain r s' where 1: "run_wrangle_data to_datetime 0 store0 = (r, s')"
    by (cases "run_wrangle_data to_datetime 0 store0")
  obtain r2 s2 where 2: "run_wrangle_data to_datetime 0 s' = (r2, s2)"
    by (cases "run_wrangle_data to_datetime 0 s'")
  have d0: "dicts store0 0 = duplicate_input"
    and f0: "frames store0 0 = DataFrame [Timestamp 1, Timestamp 2, Timestamp 3]"
    and n0: "0 < next_frame store0"
    by (simp_all add: store0_def)
  note c6 = C6_pure_and_deterministic [OF 1 2]
  have d: "dicts s' 0 = duplicate_input" using c6 d0 by simp
  have f: "frames s' 0 = DataFrame [Timestamp 1, Timestamp 2, Timestamp 3]"
    using c6 f0 n0 by simp
  show ?thesis
  proof (cases r)
    case (Inl err)
    then have "wrangle_data to_datetime duplicate_input = Inl err" using c6 d0 by simp
    then show ?thesis using duplicate_table by simp
  next
    case (Inr a)
    then show ?thesis using c6 1 2 d f d0 by auto
  qed
qed

text \<open>
  C7, evaluated where the code departs from it. When the fetch returns a dictionary whose
  record list is empty, \<open>len(apidata)\<close> counts the key \<open>'data'\<close> and any key beside it
  and is not 0, the callback takes the branch for fresh data, marks the button as synced,
  and \<open>wrangle_data\<close> raises \<open>IndexError\<close>. The table is retained, but what the user
  sees is success, not failure.
\<close>

theorem C7_empty_records_marked_synced:
  "len \<lparr>data = Some [], other_keys = n\<rparr> = Suc n
   \<and> api_button_callback pd \<lparr>data = Some [], other_keys = n\<rparr> b nb =
       (Some IndexError,
        b\<lparr>icon := ''check-circle'', description := ''Synced'', disabled := True\<rparr>,
        nb)"
  by (simp add: api_button_callback_def len_def wrangle_data_def)

text \<open>
  C8 (amended). When the fetch returns a record collection on which \<open>wrangle_data\<close>
  succeeds, the callback replaces the whole active table with the newly wrangled one and
  then has the selector redraw: the output widget is asked to draw twice from the new
  table, the second time the user's selection (a hint when nothing is selected).
\<close>

theorem C8_table_replaced:
  assumes "wrangle_data pd apidata = Inr table"
  shows "api_button_callback pd apidata b nb =
     (None,
      b\<lparr>icon := ''check-circle'', description := ''Synced'', disabled := True\<rparr>,
      \<lparr>df = table, bedcols_value = bedcols_value nb,
       drawn = drawn nb @
         [Plot (if bedcols_value nb = [beds, cases] then [beds, cases, firstDose]
                else [beds, cases]) table,
          if bedcols_value nb = [] then Hint else Plot (bedcols_value nb) table]\<rparr>)"
  using assms wrangle_data_len [OF assms]
  by (simp add: api_button_callback_def Let_def refresh_graph_redraws)

theorem C8_table_replaced_witness:
  "\<exists>t. wrangle_data to_datetime example_input = Inr t
     \<and> index t = [Timestamp 737791, Timestamp 737792, Timestamp 737793]
     \<and> api_button_callback to_datetime example_input apibutton notebook0 =
         (None,
          apibutton\<lparr>icon := ''check-circle'', description := ''Synced'', disabled := True\<rparr>,
          \<lparr>df = t, bedcols_value = [beds, cases, firstDose],
           drawn = [Plot [beds, cases] t, Plot [beds, cases, firstDose] t]\<rparr>)"
proof -
  obtain t where t: "wrangle_data to_datetime example_input = Inr t"
    using example_table by blast
  have "api_button_callback to_datetime example_input apibutton notebook0 =
         (None,
          apibutton\<lparr>icon := ''check-circle'', description := ''Synced'', disabled := True\<rparr>,
          \<lparr>df = t, bedcols_value = [beds, cases, firstDose],
           drawn = [Plot [beds, cases] t, Plot [beds, cases, firstDose] t]\<rparr>)"
    using C8_table_replaced [OF t, of apibutton notebook0] by (simp add: notebook0_def)
  then show ?thesis using t example_index [OF t] by blast
qed

text \<open>
  C8, counterexample to the specification's wording, for a non-empty record collection
  that \<open>wrangle_data\<close> rejects:
  on \<open>bad_date_input\<close> the exception leaves the callback, the active table is the old
  one and nothing is redrawn.
\<close>

theorem C8_counterexample:
  "data bad_date_input \<noteq> Some [] \<and> 0 < len bad_date_input
   \<and> api_button_callback to_datetime bad_date_input apibutton notebook0 =
       (Some ValueError,
        apibutton\<lparr>icon := ''check-circle'', description := ''Synced'', disabled := True\<rparr>,
        notebook0)"
proof -
  have "wrangle_data to_datetime bad_date_input = Inl ValueError"
    by (simp add: wrangle_data_def bad_date_input_def frame_defs
      parse_2021_01_01 parse_2021_01_03 parse_bad)
  then show ?thesis
    by (simp add: api_button_callback_def Let_def len_def bad_date_input_def)
qed

text \<open>
  C9. On the input of the specification's example, \<open>wrangle_data\<close> returns a table with
  exactly the rows 2021-01-01, 2021-01-02 and 2021-01-03; the row of 2021-01-02 is
  \<open>(0, 0, 0, 0)\<close>, the row of 2021-01-01 has \<open>firstDose = 0.0\<close>, and the row of 2021-01-03
  has \<open>beds = 12\<close>.
\<close>

theorem C9_example:
  "\<exists>t. wrangle_data to_datetime example_input = Inr t
     \<and> map Inr (index t)
         = map (parse_date to_datetime) [''2021-01-01'', ''2021-01-02'', ''2021-01-03'']
     \<and> index t = [Timestamp (ymd2ord 2021 1 1), Timestamp (ymd2ord 2021 1 2),
                  Timestamp (ymd2ord 2021 1 3)]
     \<and> cell t (Timestamp (ymd2ord 2021 1 2)) beds = Finite 0
     \<and> cell t (Timestamp (ymd2ord 2021 1 2)) cases = Finite 0
     \<and> cell t (Timestamp (ymd2ord 2021 1 2)) firstDose = Finite 0
     \<and> cell t (Timestamp (ymd2ord 2021 1 2)) secondDose = Finite 0
     \<and> cell t (Timestamp (ymd2ord 2021 1 1)) firstDose = Finite 0
     \<and> cell t (Timestamp (ymd2ord 2021 1 3)) beds = Finite 12"
  by (simp add: example_table ymd_2021 fillna_def isna_def
      parse_2021_01_01 parse_2021_01_02 parse_2021_01_03)

text \<open>
  C10. When the first entry of a date holds \<open>None\<close> in a column and a later entry of the
  same date holds a number there, the cell of the table is 0.0. The statement follows the
  loop: before the first entry of the date is reached the slot is NaN; the pass of the
  inner loop for that entry writes 0.0 into it; the slot still holds 0.0 when the later
  entry is reached and after the later entry's pass; and the table is the last frame with
  its NaN filled. The write shadows the later value for good: the call returns the same
  table whatever the later entry has under that key, even when it has no such key, and a
  later number other than 0.0 is not in the table.
\<close>

theorem C10_null_shadows_later_value:
  assumes "wrangle_data pd raw = Inr t" "data raw = Some (xs @ e1 # ys @ e2 # zs)"
    and "parsed_date pd e1 = Inr d" "parsed_date pd e2 = Inr d"
    and "\<forall>e \<in> set xs. parsed_date pd e \<noteq> Inr d"
    and "col e1 c = Some Null" "col e2 c = Some x" "to_float x = Inr v"
  shows "cell t d c = Finite 0
       \<and> (v \<noteq> Finite 0 \<longrightarrow> cell t d c \<noteq> v)
       \<and> (\<exists>idx fr0 fr1 fr2 fr3 fr4.
             fill_entries pd xs (DataFrame idx) = Inr fr0 \<and> isna (cell fr0 d c)
           \<and> fill_columns e1 d columns fr0 = Inr fr1 \<and> cell fr1 d c = Finite 0
           \<and> fill_entries pd ys fr1 = Inr fr2 \<and> cell fr2 d c = Finite 0
           \<and> fill_columns e2 d columns fr2 = Inr fr3 \<and> cell fr3 d c = Finite 0
           \<and> fill_entries pd zs fr3 = Inr fr4
           \<and> t = fillna (Finite 0) fr4)
       \<and> (\<forall>y. wrangle_data pd
                 (raw\<lparr>data := Some (xs @ e1 # ys @ e2\<lparr>col := (col e2)(c := y)\<rparr> # zs)\<rparr>)
               = Inr t)"
proof -
  let ?l = "xs @ e1 # ys @ e2 # zs"
  have f1: "float_value e1 c = Finite 0" using assms(6) by (simp add: float_value_def to_float_Null)
  have skip_xs: "first_value pd d c (xs @ us) = first_value pd d c us" for us
    using assms(5) by (intro first_value_skip) simp
  have fv_xs: "first_value pd d c xs = NaN"
    using skip_xs [of "[]"] by simp
  from assms(1) obtain datalist idx fr where w: "data raw = Some datalist"
    "fill_entries pd datalist (DataFrame idx) = Inr fr" "t = fillna (Finite 0) fr"
    by (rule wrangle_data_Inr)
  have run: "fill_entries pd (xs @ e1 # ys @ e2 # zs) (DataFrame idx) = Inr fr"
    using w assms(2) by simp
  have nan0: "cell (DataFrame idx') d c = NaN" for idx' by (simp add: DataFrame_def)
  from run obtain fr0 where s0: "fill_entries pd xs (DataFrame idx) = Inr fr0"
    and r0: "fill_entries pd (e1 # ys @ e2 # zs) fr0 = Inr fr"
    by (rule fill_entries_append_Inr)
  from r0 obtain d1 fr1 where "parsed_date pd e1 = Inr d1"
    "fill_columns e1 d1 columns fr0 = Inr fr1"
    and r1: "fill_entries pd (ys @ e2 # zs) fr1 = Inr fr"
    by (rule fill_entries_Cons_Inr)
  then have s1: "fill_columns e1 d columns fr0 = Inr fr1" using assms(3) by simp
  from r1 obtain fr2 where s2: "fill_entries pd ys fr1 = Inr fr2"
    and r2: "fill_entries pd (e2 # zs) fr2 = Inr fr"
    by (rule fill_entries_append_Inr)
  from r2 obtain d2 fr3 where "parsed_date pd e2 = Inr d2"
    "fill_columns e2 d2 columns fr2 = Inr fr3"
    and s4: "fill_entries pd zs fr3 = Inr fr"
    by (rule fill_entries_Cons_Inr)
  then have s3: "fill_columns e2 d columns fr2 = Inr fr3" using assms(4) by simp
  have c0: "isna (cell fr0 d c)"
    using fill_entries_cell [OF s0, of d c] nan0 fv_xs by (simp add: isna_def)
  have c1: "cell fr1 d c = Finite 0"
    using fill_columns_cell [OF s1, of d c] c0 f1 column_in_columns by simp
  have c2: "cell fr2 d c = Finite 0"
    using fill_entries_cell [OF s2, of d c] c1 by (simp add: isna_def)
  have c3: "cell fr3 d c = Finite 0"
    using fill_columns_cell [OF s3, of d c] c2 by (simp add: isna_def)
  have c4: "cell fr d c = Finite 0"
    using fill_entries_cell [OF s4, of d c] c3 by (simp add: isna_def)
  have ct: "cell t d c = Finite 0" using c4 w(3) by (simp add: fillna_def isna_def)
  have steps: "\<exists>idx fr0 fr1 fr2 fr3 fr4.
             fill_entries pd xs (DataFrame idx) = Inr fr0 \<and> isna (cell fr0 d c)
           \<and> fill_columns e1 d columns fr0 = Inr fr1 \<and> cell fr1 d c = Finite 0
           \<and> fill_entries pd ys fr1 = Inr fr2 \<and> cell fr2 d c = Finite 0
           \<and> fill_columns e2 d columns fr2 = Inr fr3 \<and> cell fr3 d c = Finite 0
           \<and> fill_entries pd zs fr3 = Inr fr4
           \<and> t = fillna (Finite 0) fr4"
    using s0 c0 s1 c1 s2 c2 s3 c3 s4 w(3) by blast
  have shadow: "wrangle_data pd
                 (raw\<lparr>data := Some (xs @ e1 # ys @ e2\<lparr>col := (col e2)(c := y)\<rparr> # zs)\<rparr>)
               = Inr t" for y
    using assms(1-5) f1 by (intro wrangle_data_shadow) (simp_all add: isna_def)
  have "v \<noteq> Finite 0 \<longrightarrow> cell t d c \<noteq> v" using ct by simp
  then show ?thesis using ct steps shadow by blast
qed

theorem C10_null_shadows_later_value_witness:
  "\<exists>t. wrangle_data to_datetime duplicate_input = Inr t
     \<and> cell t (Timestamp 737791) beds = Finite 0
     \<and> cell t (Timestamp 737791) beds \<noteq> Finite 7
     \<and> wrangle_data to_datetime
         \<lparr>data = Some [make_entry ''2021-01-01'' Null (JInt 1) (JInt 2) (JInt 3),
                       make_entry ''2021-01-01'' (JInt 12345) (JInt 8) (JInt 9) (JInt 10)],
          other_keys = 0\<rparr> = Inr t"
proof -
  let ?a = "make_entry ''2021-01-01'' Null (JInt 1) (JInt 2) (JInt 3)"
  let ?b = "make_entry ''2021-01-01'' (JInt 7) (JInt 8) (JInt 9) (JInt 10)"
  let ?d = "Timestamp 737791"
  have p: "parsed_date to_datetime ?a = Inr ?d" "parsed_date to_datetime ?b = Inr ?d"
    by (simp_all add: parsed_date_def make_entry_date parse_2021_01_01)
  have ca: "col ?a beds = Some Null" and cb: "col ?b beds = Some (JInt 7)"
    by (simp_all add: make_entry_def)
  have fb: "to_float (JInt 7) = Inr (Finite 7)" by (simp add: to_float_JInt)
  obtain t where t: "wrangle_data to_datetime duplicate_input = Inr t"
    using duplicate_table by blast
  have dl: "data duplicate_input = Some ([] @ ?a # [] @ ?b # [])"
    by (simp add: duplicate_input_def)
  have xs: "\<forall>e \<in> set []. parsed_date to_datetime e \<noteq> Inr ?d" by simp
  note c10 = C10_null_shadows_later_value [OF t dl p(1) p(2) xs ca cb fb]
  have 1: "cell t ?d beds = Finite 0" using c10 by blast
  have 2: "cell t ?d beds \<noteq> Finite 7" using c10 by simp
  have "wrangle_data to_datetime
          (duplicate_input\<lparr>data := Some ([] @ ?a # [] @ ?b\<lparr>col := (col ?b)(beds := Some (JInt 12345))\<rparr> # [])\<rparr>)
        = Inr t"
    using c10 by blast
  moreover have "?b\<lparr>col := (col ?b)(beds := Some (JInt 12345))\<rparr>
      = make_entry ''2021-01-01'' (JInt 12345) (JInt 8) (JInt 9) (JInt 10)"
    by (simp add: make_entry_def fun_eq_iff)
  ultimately have 3: "wrangle_data to_datetime
         \<lparr>data = Some [?a, make_entry ''2021-01-01'' (JInt 12345) (JInt 8) (JInt 9) (JInt 10)],
          other_keys = 0\<rparr> = Inr t"
    by (simp add: duplicate_input_def)
  show ?thesis using t 1 2 3 by blast
qed

end
